theory Spec2Isabelle
  imports Main "HOL-Library.Sublist"
begin

section \<open>Python string operations used by the scanner\<close>

text \<open>
  A string is a list of characters, and a character stands for the code point of the same
  number: the strings of the model are the Python strings over the code points below 256.
  On these \<open>strip\<close> and \<open>isdigit\<close> are those of Python. \<open>upper\<close> and \<open>lower\<close> map the
  letters a to z and A to Z, as the identifiers that the feed listing prints need it;
  Python maps accented letters too.
\<close>

definition upper_char :: "char \<Rightarrow> char" where
  "upper_char c =
     (case map_of (zip ''abcdefghijklmnopqrstuvwxyz'' ''ABCDEFGHIJKLMNOPQRSTUVWXYZ'') c of
        None \<Rightarrow> c | Some u \<Rightarrow> u)"

definition lower_char :: "char \<Rightarrow> char" where
  "lower_char c =
     (case map_of (zip ''ABCDEFGHIJKLMNOPQRSTUVWXYZ'' ''abcdefghijklmnopqrstuvwxyz'') c of
        None \<Rightarrow> c | Some l \<Rightarrow> l)"

definition upper :: "string \<Rightarrow> string" where
  "upper s = map upper_char s"

definition lower :: "string \<Rightarrow> string" where
  "lower s = map lower_char s"

text \<open>\<open>str.strip()\<close> removes the whitespace characters from both ends: below 256 these are
  tab, line feed, vertical tab, form feed, carriage return, the four separators
  0x1c to 0x1f, space, next line (0x85) and the no-break space (0xa0).\<close>

definition is_space :: "char \<Rightarrow> bool" where
  "is_space c = (c \<in> set [CHR 0x09, CHR 0x0A, CHR 0x0B, CHR 0x0C, CHR 0x0D,
                             CHR 0x1C, CHR 0x1D, CHR 0x1E, CHR 0x1F, CHR '' '',
                             CHR 0x85, CHR 0xA0])"

definition strip :: "string \<Rightarrow> string" where
  "strip s = rev (dropWhile is_space (rev (dropWhile is_space s)))"

fun startswith :: "string \<Rightarrow> string \<Rightarrow> bool" where
  "startswith s [] = True"
| "startswith [] (p # ps) = False"
| "startswith (c # cs) (p # ps) = (c = p \<and> startswith cs ps)"

text \<open>\<open>sub in s\<close>: the substring test.\<close>

fun contains :: "string \<Rightarrow> string \<Rightarrow> bool" where
  "contains sub [] = (sub = [])"
| "contains sub (c # cs) = (startswith (c # cs) sub \<or> contains sub cs)"

text \<open>\<open>s.endswith(suffix)\<close>.\<close>

definition endswith :: "string \<Rightarrow> string \<Rightarrow> bool" where
  "endswith s suf = startswith (rev s) (rev suf)"

text \<open>\<open>s.rsplit('.', 1)\<close> cuts at the last dot; without a dot the list has the one
  element \<open>s\<close>. \<open>rsplit_dot_first\<close> is its element 0, and \<open>rsplit_dot_second\<close> its
  element 1, which the source reads only behind a test for a dot.\<close>

definition rsplit_dot_first :: "string \<Rightarrow> string" where
  "rsplit_dot_first s =
     (if CHR ''.'' \<in> set s then rev (tl (dropWhile (\<lambda>c. c \<noteq> CHR ''.'') (rev s))) else s)"

definition rsplit_dot_second :: "string \<Rightarrow> string option" where
  "rsplit_dot_second s =
     (if CHR ''.'' \<in> set s then Some (rev (takeWhile (\<lambda>c. c \<noteq> CHR ''.'') (rev s))) else None)"

text \<open>\<open>s.split('_')[0]\<close>: the part before the first underscore.\<close>

definition split_underscore_first :: "string \<Rightarrow> string" where
  "split_underscore_first s = takeWhile (\<lambda>c. c \<noteq> CHR ''_'') s"

text \<open>\<open>s.replace('_', '')\<close>.\<close>

definition remove_underscores :: "string \<Rightarrow> string" where
  "remove_underscores s = filter (\<lambda>c. c \<noteq> CHR ''_'') s"

text \<open>\<open>s.isdigit()\<close> is true of a non-empty string of digit characters. Python counts as
  digit characters the decimal digits and the other characters with the Unicode property
  of a digit: below 256 these are 0 to 9 and the superscripts two (0xb2), three (0xb3)
  and one (0xb9).\<close>

definition is_digit_char :: "char \<Rightarrow> bool" where
  "is_digit_char c = (c \<in> set ''0123456789'' \<or> c \<in> set [CHR 0xB2, CHR 0xB3, CHR 0xB9])"

definition isdigit :: "string \<Rightarrow> bool" where
  "isdigit s = (s \<noteq> [] \<and> list_all is_digit_char s)"

section \<open>Feed lines\<close>

text \<open>
  Both scans treat a line of the listing in the same way:
  \<^verbatim>\<open>
    line = line.strip().upper()
    if line.startswith('# '):
        line = line[2:]
    if line and any(ext in line.lower() for ext in ['.jpg', '.mp4', '.webp']):
  \<close>
\<close>

definition normalize_line :: "string \<Rightarrow> string" where
  "normalize_line raw =
     (let line = upper (strip raw)
      in if startswith line ''# '' then drop 2 line else line)"

definition media_suffixes :: "string list" where
  "media_suffixes = [''.jpg'', ''.mp4'', ''.webp'']"

definition is_media_line :: "string \<Rightarrow> bool" where
  "is_media_line line =
     (line \<noteq> [] \<and> list_ex (\<lambda>ext. contains ext (lower line)) media_suffixes)"

definition is_candidate :: "string \<Rightarrow> bool" where
  "is_candidate raw = is_media_line (normalize_line raw)"

datatype media_kind = Image | Video

text \<open>\<open>ext = line.rsplit('.', 1)[1].lower() if '.' in line else ''\<close> and
  \<open>media_type = video if ext == 'mp4' else image\<close>.\<close>

definition media_type_of :: "string \<Rightarrow> media_kind" where
  "media_type_of line =
     (let ext = (case rsplit_dot_second line of Some e \<Rightarrow> lower e | None \<Rightarrow> [])
      in if ext = ''mp4'' then Video else Image)"

section \<open>The scan of posts\<close>

text \<open>An entry of \<open>media_list\<close>; the key \<open>type\<close> is the constant \<open>post\<close>.\<close>

record post_item =
  item_id :: string
  post_id :: string
  post_index :: int
  media_index :: int
  filename :: string
  media_type :: media_kind

text \<open>The post ids of the archived full ids:
  \<^verbatim>\<open>
    downloaded_post_ids = set()
    for full_id in downloaded_ids:
        id_without_ext = full_id.rsplit('.', 1)[0] if '.' in full_id else full_id
        post_id = id_without_ext.split('_')[0]
        downloaded_post_ids.add(post_id)
  \<close>\<close>

definition archived_post_id :: "string \<Rightarrow> string" where
  "archived_post_id full_id =
     (let id_without_ext = (if CHR ''.'' \<in> set full_id then rsplit_dot_first full_id else full_id)
      in split_underscore_first id_without_ext)"

definition downloaded_post_ids :: "string list \<Rightarrow> string set" where
  "downloaded_post_ids downloaded_ids =
     fold (\<lambda>full_id acc. insert (archived_post_id full_id) acc) downloaded_ids {}"

text \<open>The local variables of the loop of \<open>run_gallery_dl_scan_posts\<close>.\<close>

record scan_state =
  media_list :: "post_item list"
  duplicate_count :: int
  stopped_early :: bool
  new_content_count :: int
  last_post_id :: "string option"
  cur_post_index :: int
  cur_media_index :: int

definition init_state :: scan_state where
  "init_state = \<lparr>media_list = [], duplicate_count = 0, stopped_early = False,
     new_content_count = 0, last_post_id = None, cur_post_index = 0, cur_media_index = 0\<rparr>"

text \<open>\<open>if max_range and media_index >= max_range\<close>: \<open>None\<close> and \<open>0\<close> are false.\<close>

definition range_reached :: "int option \<Rightarrow> int \<Rightarrow> bool" where
  "range_reached max_range idx =
     (case max_range of None \<Rightarrow> False | Some r \<Rightarrow> r \<noteq> 0 \<and> idx \<ge> r)"

text \<open>
  The threshold \<open>max_duplicates\<close> is the setting \<open>MAX_CONSECUTIVE_DUPLICATES\<close>. Its default in
  \<open>config.py\<close> is the integer 3; \<open>settings_menu\<close> checks that the text typed by the user
  is accepted by \<open>int\<close> and then stores the text itself, so the setting is an integer or
  a string. The comparison \<open>duplicate_count >= max_duplicates\<close> of line 350 raises
  \<open>TypeError\<close> when the setting is a string.
\<close>

datatype setting = Int_setting int | Str_setting string

datatype py_exception = TypeError

definition count_reaches :: "int \<Rightarrow> setting \<Rightarrow> py_exception + bool" where
  "count_reaches n max_duplicates =
     (case max_duplicates of
        Int_setting m \<Rightarrow> Inr (n \<ge> m)
      | Str_setting t \<Rightarrow> Inl TypeError)"

text \<open>One iteration of the loop of \<open>run_gallery_dl_scan_posts\<close> (lines 317 to 377), for any
  setting: it raises, or gives the new state and says whether the loop breaks.\<close>

definition scan_posts_iteration ::
  "string set \<Rightarrow> setting \<Rightarrow> int option \<Rightarrow> scan_state \<Rightarrow> string
     \<Rightarrow> py_exception + scan_state \<times> bool" where
  "scan_posts_iteration dl_post_ids max_duplicates max_range st raw =
     (let line = normalize_line raw in
      if is_media_line line then
        let full_id = rsplit_dot_first line;
            pid = split_underscore_first full_id;
            is_new_post = (Some pid \<noteq> last_post_id st);
            st1 = st\<lparr>last_post_id := Some pid, cur_media_index := cur_media_index st + 1\<rparr>;
            st2 = (if is_new_post then st1\<lparr>cur_post_index := cur_post_index st1 + 1\<rparr> else st1)
        in if pid \<in> dl_post_ids then
             (if is_new_post then
                let st3 = st2\<lparr>duplicate_count := duplicate_count st2 + 1\<rparr>
                in (case count_reaches (duplicate_count st3) max_duplicates of
                      Inl e \<Rightarrow> Inl e
                    | Inr reached \<Rightarrow>
                        if reached then Inr (st3\<lparr>stopped_early := True\<rparr>, True)
                        else Inr (st3, False))
              else Inr (st2, False))
           else
             let st3 = st2\<lparr>new_content_count := new_content_count st2 + 1,
                           media_list := media_list st2 @
                             [\<lparr>item_id = full_id, post_id = pid,
                               post_index = cur_post_index st2,
                               media_index = cur_media_index st2,
                               filename = line, media_type = media_type_of line\<rparr>]\<rparr>
             in if range_reached max_range (cur_media_index st3)
                then Inr (st3\<lparr>stopped_early := True\<rparr>, True)
                else Inr (st3, False)
      else Inr (st, False))"

fun scan_posts_run ::
  "string set \<Rightarrow> setting \<Rightarrow> int option \<Rightarrow> scan_state \<Rightarrow> string list
     \<Rightarrow> py_exception + scan_state" where
  "scan_posts_run dl md mr st [] = Inr st"
| "scan_posts_run dl md mr st (raw # rest) =
     (case scan_posts_iteration dl md mr st raw of
        Inl e \<Rightarrow> Inl e
      | Inr (st', brk) \<Rightarrow> if brk then Inr st' else scan_posts_run dl md mr st' rest)"

text \<open>
  \<open>run_gallery_dl_scan_posts\<close> returns \<open>(media_list, success, stopped_early)\<close>. The listing
  process completes with the lines \<open>result.stdout.split('\n')\<close> and a return code, or
  \<open>subprocess.run\<close> raises; every exception, of the process or of the loop, is caught
  (lines 391 to 396) and gives \<open>([], False, False)\<close>.
\<close>

datatype subprocess_outcome = Completed "string list" int | Timeout_expired | Other_exception

definition run_gallery_dl_scan_posts ::
  "subprocess_outcome \<Rightarrow> string list \<Rightarrow> int option \<Rightarrow> setting
     \<Rightarrow> post_item list \<times> bool \<times> bool" where
  "run_gallery_dl_scan_posts outcome downloaded_ids max_range max_duplicates =
     (case outcome of
        Completed lines returncode \<Rightarrow>
          (case scan_posts_run (downloaded_post_ids downloaded_ids) max_duplicates max_range
                  init_state lines of
             Inl e \<Rightarrow> ([], False, False)
           | Inr st \<Rightarrow> (media_list st, media_list st \<noteq> [] \<or> returncode = 0, stopped_early st))
      | Timeout_expired \<Rightarrow> ([], False, False)
      | Other_exception \<Rightarrow> ([], False, False))"

text \<open>
  At an integer threshold the comparison does not raise, and the iteration is the function
  \<open>scan_posts_step\<close> below (lemma \<open>iteration_at_integer\<close>); the statements about integer
  thresholds are made on it. Its second component says that the loop breaks.
\<close>

definition scan_posts_step ::
  "string set \<Rightarrow> int \<Rightarrow> int option \<Rightarrow> scan_state \<Rightarrow> string \<Rightarrow> scan_state \<times> bool" where
  "scan_posts_step dl_post_ids max_duplicates max_range st raw =
     (let line = normalize_line raw in
      if is_media_line line then
        let full_id = rsplit_dot_first line;
            pid = split_underscore_first full_id;
            is_new_post = (Some pid \<noteq> last_post_id st);
            st1 = st\<lparr>last_post_id := Some pid, cur_media_index := cur_media_index st + 1\<rparr>;
            st2 = (if is_new_post then st1\<lparr>cur_post_index := cur_post_index st1 + 1\<rparr> else st1)
        in if pid \<in> dl_post_ids then
             (if is_new_post then
                let st3 = st2\<lparr>duplicate_count := duplicate_count st2 + 1\<rparr>
                in if duplicate_count st3 \<ge> max_duplicates
                   then (st3\<lparr>stopped_early := True\<rparr>, True)
                   else (st3, False)
              else (st2, False))
           else
             let st3 = st2\<lparr>new_content_count := new_content_count st2 + 1,
                           media_list := media_list st2 @
                             [\<lparr>item_id = full_id, post_id = pid,
                               post_index = cur_post_index st2,
                               media_index = cur_media_index st2,
                               filename = line, media_type = media_type_of line\<rparr>]\<rparr>
             in if range_reached max_range (cur_media_index st3)
                then (st3\<lparr>stopped_early := True\<rparr>, True)
                else (st3, False)
      else (st, False))"

fun scan_posts_loop ::
  "string set \<Rightarrow> int \<Rightarrow> int option \<Rightarrow> scan_state \<Rightarrow> string list \<Rightarrow> scan_state" where
  "scan_posts_loop dl md mr st [] = st"
| "scan_posts_loop dl md mr st (raw # rest) =
     (case scan_posts_step dl md mr st raw of
        (st', brk) \<Rightarrow> if brk then st' else scan_posts_loop dl md mr st' rest)"

text \<open>The loop of \<open>run_gallery_dl_scan_posts\<close> at an integer threshold, on the lines
  \<open>result.stdout.split('\n')\<close> of the listing.\<close>

definition scan_posts :: "string list \<Rightarrow> int \<Rightarrow> int option \<Rightarrow> string list \<Rightarrow> scan_state" where
  "scan_posts downloaded_ids max_duplicates max_range lines =
     scan_posts_loop (downloaded_post_ids downloaded_ids) max_duplicates max_range init_state lines"

text \<open>The default of the setting \<open>MAX_CONSECUTIVE_DUPLICATES\<close> in \<open>config.py\<close>.\<close>

definition default_max_consecutive_duplicates :: int where
  "default_max_consecutive_duplicates = 3"

text \<open>
  Two views of a run of the loop, both read off \<open>scan_posts_step\<close>: the lines on which the
  body runs (up to and including the line at which the loop breaks), and the values of
  \<open>media_index\<close> given to the candidate lines among them.
\<close>

fun consumed_lines ::
  "string set \<Rightarrow> int \<Rightarrow> int option \<Rightarrow> scan_state \<Rightarrow> string list \<Rightarrow> string list" where
  "consumed_lines dl md mr st [] = []"
| "consumed_lines dl md mr st (raw # rest) =
     (case scan_posts_step dl md mr st raw of
        (st', brk) \<Rightarrow> raw # (if brk then [] else consumed_lines dl md mr st' rest))"

fun assigned_positions ::
  "string set \<Rightarrow> int \<Rightarrow> int option \<Rightarrow> scan_state \<Rightarrow> string list \<Rightarrow> int list" where
  "assigned_positions dl md mr st [] = []"
| "assigned_positions dl md mr st (raw # rest) =
     (case scan_posts_step dl md mr st raw of
        (st', brk) \<Rightarrow>
          (if is_candidate raw then [cur_media_index st'] else []) @
          (if brk then [] else assigned_positions dl md mr st' rest))"

text \<open>The post id of a candidate line, and the test of line 343 of the source,
  \<open>post_id in downloaded_post_ids\<close>, for a raw line.\<close>

definition line_post_id :: "string \<Rightarrow> string" where
  "line_post_id raw =
     (let line = normalize_line raw; full_id = rsplit_dot_first line
      in split_underscore_first full_id)"

definition classified_duplicate :: "string list \<Rightarrow> string \<Rightarrow> bool" where
  "classified_duplicate downloaded_ids raw =
     (line_post_id raw \<in> downloaded_post_ids downloaded_ids)"

text \<open>The streak as the specification words it: the number of candidates that are
  duplicates and whose group differs from the group of the candidate before them.\<close>

fun spec_new_group_duplicates :: "string set \<Rightarrow> string option \<Rightarrow> string list \<Rightarrow> int" where
  "spec_new_group_duplicates dl prev [] = 0"
| "spec_new_group_duplicates dl prev (raw # rest) =
     (if is_candidate raw
      then (if line_post_id raw \<in> dl \<and> Some (line_post_id raw) \<noteq> prev then 1 else 0)
           + spec_new_group_duplicates dl (Some (line_post_id raw)) rest
      else spec_new_group_duplicates dl prev rest)"

text \<open>
  The place where the scan stops, in the words of the specification. The group of the
  candidate before a line is the post id of the last candidate among the lines before it.
  The scan stops at line \<open>j\<close> of the listing when that line is a candidate and either it is a
  duplicate that starts a new group and brings the streak, counted over the lines up to and
  including it, to the threshold, or it is new and its position among the candidates
  reaches the non-zero \<open>max_range\<close>.
\<close>

definition spec_previous_group :: "string list \<Rightarrow> string option" where
  "spec_previous_group lines =
     (case rev (filter is_candidate lines) of
        [] \<Rightarrow> None
      | raw # _ \<Rightarrow> Some (line_post_id raw))"

definition spec_stop_at :: "string set \<Rightarrow> int \<Rightarrow> int option \<Rightarrow> string list \<Rightarrow> nat \<Rightarrow> bool" where
  "spec_stop_at dl md mr lines j =
     (is_candidate (lines ! j) \<and>
      (if line_post_id (lines ! j) \<in> dl
       then Some (line_post_id (lines ! j)) \<noteq> spec_previous_group (take j lines) \<and>
            md \<le> spec_new_group_duplicates dl None (take (Suc j) lines)
       else range_reached mr (int (length (filter is_candidate (take (Suc j) lines))))))"

section \<open>The scan of stories\<close>

record story_item =
  story_id :: string
  story_filename :: string
  story_media_type :: media_kind

record stories_state =
  stories_list :: "story_item list"
  total_scanned :: int

definition init_stories_state :: stories_state where
  "init_stories_state = \<lparr>stories_list = [], total_scanned = 0\<rparr>"

definition scan_stories_step :: "string list \<Rightarrow> stories_state \<Rightarrow> string \<Rightarrow> stories_state" where
  "scan_stories_step downloaded_ids st raw =
     (let line = normalize_line raw in
      if is_media_line line then
        let media_id = rsplit_dot_first line in
        if isdigit (remove_underscores media_id) then
          let st1 = st\<lparr>total_scanned := total_scanned st + 1\<rparr>
          in if line \<in> set downloaded_ids then st1
             else st1\<lparr>stories_list := stories_list st1 @
                    [\<lparr>story_id = media_id, story_filename = line,
                      story_media_type = media_type_of line\<rparr>]\<rparr>
        else st
      else st)"

definition scan_stories :: "string list \<Rightarrow> string list \<Rightarrow> stories_state" where
  "scan_stories downloaded_ids lines =
     fold (\<lambda>raw st. scan_stories_step downloaded_ids st raw) lines init_stories_state"

section \<open>The range of the download\<close>

text \<open>\<open>min\<close> and \<open>max\<close> of Python raise \<open>ValueError\<close> on an empty sequence.\<close>

fun py_min :: "int list \<Rightarrow> int option" where
  "py_min [] = None"
| "py_min (x # xs) = Some (fold min xs x)"

fun py_max :: "int list \<Rightarrow> int option" where
  "py_max [] = None"
| "py_max (x # xs) = Some (fold max xs x)"

text \<open>
  \<^verbatim>\<open>
    if new_posts:
        min_media_index = min(m.get("media_index", 0) for m in new_posts)
        max_media_index = max(m.get("media_index", 0) for m in new_posts)
        posts_range = (min_media_index, max_media_index)
    else:
        posts_range = None
  \<close>
\<close>

definition posts_range :: "post_item list \<Rightarrow> (int \<times> int) option" where
  "posts_range new_posts =
     (if new_posts \<noteq> [] then
        (case (py_min (map media_index new_posts), py_max (map media_index new_posts)) of
           (Some lo, Some hi) \<Rightarrow> Some (lo, hi)
         | _ \<Rightarrow> None)
      else None)"

text \<open>The guard of the download of posts in \<open>download_content_v2\<close>:
  \<open>if posts_range and posts_range[0] > 0 and posts_range[1] >= posts_range[0]\<close>.\<close>

definition posts_download_runs :: "(int \<times> int) option \<Rightarrow> bool" where
  "posts_download_runs pr =
     (case pr of None \<Rightarrow> False | Some (start, end) \<Rightarrow> start > 0 \<and> end \<ge> start)"

section \<open>The archive\<close>

text \<open>The archive document maps an account to its two lists of full ids.\<close>

record account_archive =
  posts :: "string list"
  stories :: "string list"

type_synonym archive = "string \<rightharpoonup> account_archive"

text \<open>\<open>list(dict.fromkeys(xs))\<close>: the first occurrence of every element, in order.\<close>

definition dict_fromkeys :: "'a list \<Rightarrow> 'a list" where
  "dict_fromkeys xs = fold (\<lambda>x acc. if x \<in> set acc then acc else acc @ [x]) xs []"

text \<open>\<open>update_archive\<close> loads the document, merges and saves it; the function below maps
  the document that is loaded to the document that is saved.\<close>

definition update_archive ::
  "string \<Rightarrow> post_item list \<Rightarrow> story_item list \<Rightarrow> archive \<Rightarrow> archive" where
  "update_archive account new_posts new_stories archive =
     (let entry = (case archive account of
                     None \<Rightarrow> \<lparr>posts = [], stories = []\<rparr>
                   | Some e \<Rightarrow> e);
          new_post_ids = map filename new_posts;
          entry1 = entry\<lparr>posts := dict_fromkeys (posts entry @ new_post_ids)\<rparr>;
          new_story_ids = map story_filename new_stories;
          entry2 = entry1\<lparr>stories := dict_fromkeys (stories entry1 @ new_story_ids)\<rparr>
      in archive(account \<mapsto> entry2))"

text \<open>What \<open>check_account\<close> reads from the archive for an account:
  \<open>archive.get(account, {}).get("posts", [])\<close> and the same for \<open>stories\<close>.\<close>

definition downloaded_posts :: "archive \<Rightarrow> string \<Rightarrow> string list" where
  "downloaded_posts archive account =
     (case archive account of None \<Rightarrow> [] | Some e \<Rightarrow> posts e)"

definition downloaded_stories :: "archive \<Rightarrow> string \<Rightarrow> string list" where
  "downloaded_stories archive account =
     (case archive account of None \<Rightarrow> [] | Some e \<Rightarrow> stories e)"

section \<open>Notions used in the proofs about the scan of posts\<close>

text \<open>A state in which the loop has not stopped, and the two reasons for which it stops.\<close>

definition scan_running :: "int \<Rightarrow> int option \<Rightarrow> scan_state \<Rightarrow> bool" where
  "scan_running md mr st =
     (\<not> stopped_early st \<and> 0 \<le> duplicate_count st \<and> duplicate_count st < max md 1 \<and>
      (media_list st = [] \<or> \<not> range_reached mr (media_index (last (media_list st)))))"

text \<open>A state reached by reading the lines \<open>before\<close> without stopping.\<close>

definition tracks :: "string set \<Rightarrow> string list \<Rightarrow> scan_state \<Rightarrow> bool" where
  "tracks dl before st =
     (\<not> stopped_early st \<and>
      last_post_id st = spec_previous_group before \<and>
      duplicate_count st = spec_new_group_duplicates dl None before \<and>
      cur_media_index st = int (length (filter is_candidate before)))"

definition stop_reason :: "int \<Rightarrow> int option \<Rightarrow> scan_state \<Rightarrow> bool" where
  "stop_reason md mr st =
     (max md 1 \<le> duplicate_count st \<or>
      (media_list st \<noteq> [] \<and> range_reached mr (media_index (last (media_list st)))))"

section \<open>One iteration of the scan of posts\<close>

lemma step_not_candidate:
  "\<not> is_candidate raw \<Longrightarrow> scan_posts_step dl md mr st raw = (st, False)"
  by (simp add: scan_posts_step_def is_candidate_def)

lemma step_media_index:
  "cur_media_index (fst (scan_posts_step dl md mr st raw)) =
     cur_media_index st + (if is_candidate raw then 1 else 0)"
  by (simp add: scan_posts_step_def is_candidate_def Let_def)

lemma step_post_index:
  "cur_post_index (fst (scan_posts_step dl md mr st raw)) =
     cur_post_index st +
       (if is_candidate raw \<and> Some (line_post_id raw) \<noteq> last_post_id st then 1 else 0)"
  by (simp add: scan_posts_step_def is_candidate_def line_post_id_def Let_def)

lemma step_last_post_id:
  "last_post_id (fst (scan_posts_step dl md mr st raw)) =
     (if is_candidate raw then Some (line_post_id raw) else last_post_id st)"
  by (simp add: scan_posts_step_def is_candidate_def line_post_id_def Let_def)

lemma step_duplicate_count:
  "duplicate_count (fst (scan_posts_step dl md mr st raw)) =
     duplicate_count st +
       (if is_candidate raw \<and> line_post_id raw \<in> dl \<and> Some (line_post_id raw) \<noteq> last_post_id st
        then 1 else 0)"
  by (simp add: scan_posts_step_def is_candidate_def line_post_id_def Let_def)

lemma step_new_content_count:
  "new_content_count (fst (scan_posts_step dl md mr st raw)) =
     new_content_count st + (if is_candidate raw \<and> line_post_id raw \<notin> dl then 1 else 0)"
  by (simp add: scan_posts_step_def is_candidate_def line_post_id_def Let_def)

lemma step_media_list:
  "media_list (fst (scan_posts_step dl md mr st raw)) =
     media_list st @
       (if is_candidate raw \<and> line_post_id raw \<notin> dl
        then [\<lparr>item_id = rsplit_dot_first (normalize_line raw), post_id = line_post_id raw,
               post_index = cur_post_index (fst (scan_posts_step dl md mr st raw)),
               media_index = cur_media_index st + 1,
               filename = normalize_line raw, media_type = media_type_of (normalize_line raw)\<rparr>]
        else [])"
  by (simp add: scan_posts_step_def is_candidate_def line_post_id_def Let_def)

lemma step_break:
  "snd (scan_posts_step dl md mr st raw) =
     (is_candidate raw \<and>
      (if line_post_id raw \<in> dl
       then Some (line_post_id raw) \<noteq> last_post_id st \<and> duplicate_count st + 1 \<ge> md
       else range_reached mr (cur_media_index st + 1)))"
  by (simp add: scan_posts_step_def is_candidate_def line_post_id_def Let_def)

lemma step_stopped_early:
  "stopped_early (fst (scan_posts_step dl md mr st raw)) =
     (stopped_early st \<or> snd (scan_posts_step dl md mr st raw))"
  by (simp add: scan_posts_step_def is_candidate_def line_post_id_def Let_def)

section \<open>Positions\<close>

lemma loop_media_index:
  "cur_media_index (scan_posts_loop dl md mr st lines) =
     cur_media_index st + int (length (filter is_candidate (consumed_lines dl md mr st lines)))"
proof (induction lines arbitrary: st)
  case Nil
  show ?case by simp
next
  case (Cons raw rest)
  obtain st' brk where step: "scan_posts_step dl md mr st raw = (st', brk)"
    by (cases "scan_posts_step dl md mr st raw")
  have idx: "cur_media_index st' = cur_media_index st + (if is_candidate raw then 1 else 0)"
    using step_media_index [of dl md mr st raw] step by simp
  show ?case
  proof (cases brk)
    case True
    with step idx show ?thesis by simp
  next
    case False
    with step idx Cons.IH [of st'] show ?thesis by simp
  qed
qed

lemma loop_assigned_positions:
  "assigned_positions dl md mr st lines =
     [cur_media_index st + 1 .. cur_media_index (scan_posts_loop dl md mr st lines)]"
proof (induction lines arbitrary: st)
  case Nil
  show ?case by simp
next
  case (Cons raw rest)
  obtain st' brk where step: "scan_posts_step dl md mr st raw = (st', brk)"
    by (cases "scan_posts_step dl md mr st raw")
  have idx: "cur_media_index st' = cur_media_index st + (if is_candidate raw then 1 else 0)"
    using step_media_index [of dl md mr st raw] step by simp
  have mono: "cur_media_index st' \<le> cur_media_index (scan_posts_loop dl md mr st' rest)"
    by (simp add: loop_media_index)
  show ?case
  proof (cases brk)
    case True
    with step idx show ?thesis by simp
  next
    case False
    show ?thesis
    proof (cases "is_candidate raw")
      case True
      with step idx False Cons.IH [of st'] mono show ?thesis
        by (simp add: upto_rec1 [of "cur_media_index st + 1"])
    next
      case skipped: False
      with step idx False Cons.IH [of st'] show ?thesis by simp
    qed
  qed
qed

lemma loop_emitted_subseq:
  "subseq (map media_index (media_list (scan_posts_loop dl md mr st lines)))
          (map media_index (media_list st) @ assigned_positions dl md mr st lines)"
proof (induction lines arbitrary: st)
  case Nil
  show ?case by simp
next
  case (Cons raw rest)
  obtain st' brk where step: "scan_posts_step dl md mr st raw = (st', brk)"
    by (cases "scan_posts_step dl md mr st raw")
  have idx: "cur_media_index st' = cur_media_index st + (if is_candidate raw then 1 else 0)"
    using step_media_index [of dl md mr st raw] step by simp
  have ml: "map media_index (media_list st') = map media_index (media_list st) @
       (if is_candidate raw \<and> line_post_id raw \<notin> dl then [cur_media_index st + 1] else [])"
    using step_media_list [of dl md mr st raw] step by simp
  have one: "subseq (map media_index (media_list st'))
      (map media_index (media_list st) @ (if is_candidate raw then [cur_media_index st'] else []))"
    using ml idx by (auto simp: subseq_append')
  show ?case
  proof (cases brk)
    case True
    with step one show ?thesis by simp
  next
    case False
    have "subseq (map media_index (media_list (scan_posts_loop dl md mr st' rest)))
            (map media_index (media_list st') @ assigned_positions dl md mr st' rest)"
      by (rule Cons.IH)
    also have "subseq (map media_index (media_list st') @ assigned_positions dl md mr st' rest)
       ((map media_index (media_list st) @ (if is_candidate raw then [cur_media_index st'] else []))
          @ assigned_positions dl md mr st' rest)"
      using one by (intro list_emb_append_mono) auto
    finally show ?thesis using step False by simp
  qed
qed

lemma subseq_sorted_wrt:
  "subseq xs ys \<Longrightarrow> sorted_wrt P ys \<Longrightarrow> sorted_wrt P xs"
proof (induction rule: list_emb.induct)
  case (list_emb_Nil ys)
  show ?case by simp
next
  case (list_emb_Cons xs ys y)
  then show ?case by simp
next
  case (list_emb_Cons2 x y xs ys)
  then have "set xs \<subseteq> set ys" by (auto dest: list_emb_set)
  with list_emb_Cons2 show ?case by auto
qed

text \<open>
  Claim C9. In one pass of the scan of posts the values of \<open>media_index\<close> given to the
  candidate lines are exactly 1, 2, ..., N, where N is the number of candidate lines on
  which the body of the loop ran (emitted, skipped, or stopping the scan); the counter ends
  at N; the positions are strictly increasing, and the positions of the emitted items are
  a subsequence of them, hence strictly increasing too.
\<close>

theorem item_positions_dense:
  "assigned_positions (downloaded_post_ids ids) md mr init_state lines =
     [1 .. int (length (filter is_candidate
                  (consumed_lines (downloaded_post_ids ids) md mr init_state lines)))]
   \<and> cur_media_index (scan_posts ids md mr lines) =
       int (length (filter is_candidate
                  (consumed_lines (downloaded_post_ids ids) md mr init_state lines)))
   \<and> sorted_wrt (<) (assigned_positions (downloaded_post_ids ids) md mr init_state lines)
   \<and> subseq (map media_index (media_list (scan_posts ids md mr lines)))
             (assigned_positions (downloaded_post_ids ids) md mr init_state lines)
   \<and> sorted_wrt (<) (map media_index (media_list (scan_posts ids md mr lines)))"
proof -
  let ?dl = "downloaded_post_ids ids"
  let ?ap = "assigned_positions ?dl md mr init_state lines"
  have fin: "cur_media_index (scan_posts ids md mr lines) =
       int (length (filter is_candidate (consumed_lines ?dl md mr init_state lines)))"
    using loop_media_index [of ?dl md mr init_state lines]
    by (simp add: scan_posts_def init_state_def)
  have ap: "?ap = [1 .. cur_media_index (scan_posts ids md mr lines)]"
    using loop_assigned_positions [of ?dl md mr init_state lines]
    by (simp add: scan_posts_def init_state_def)
  have sorted_ap: "sorted_wrt (<) ?ap"
    by (simp add: ap)
  have sub: "subseq (map media_index (media_list (scan_posts ids md mr lines))) ?ap"
    using loop_emitted_subseq [of ?dl md mr init_state lines]
    by (simp add: scan_posts_def init_state_def)
  have "sorted_wrt (<) (map media_index (media_list (scan_posts ids md mr lines)))"
    using sub sorted_ap by (rule subseq_sorted_wrt)
  with fin ap sorted_ap sub show ?thesis by simp
qed

section \<open>The streak of duplicates and the early stop\<close>

lemma loop_duplicate_count:
  "duplicate_count (scan_posts_loop dl md mr st lines) =
     duplicate_count st +
       spec_new_group_duplicates dl (last_post_id st) (consumed_lines dl md mr st lines)"
proof (induction lines arbitrary: st)
  case Nil
  show ?case by simp
next
  case (Cons raw rest)
  obtain st' brk where step: "scan_posts_step dl md mr st raw = (st', brk)"
    by (cases "scan_posts_step dl md mr st raw")
  have dc: "duplicate_count st' = duplicate_count st +
       (if is_candidate raw \<and> line_post_id raw \<in> dl \<and> Some (line_post_id raw) \<noteq> last_post_id st
        then 1 else 0)"
    using step_duplicate_count [of dl md mr st raw] step by simp
  have lp: "last_post_id st' = (if is_candidate raw then Some (line_post_id raw) else last_post_id st)"
    using step_last_post_id [of dl md mr st raw] step by simp
  show ?case
  proof (cases brk)
    case True
    with step dc show ?thesis by simp
  next
    case False
    with step dc lp Cons.IH [of st'] show ?thesis by simp
  qed
qed

lemma step_running:
  assumes run: "scan_running md mr st"
    and step: "scan_posts_step dl md mr st raw = (st', brk)"
  shows "if brk then stopped_early st' \<and> stop_reason md mr st' \<and> duplicate_count st' \<le> max md 1
         else scan_running md mr st'"
proof -
  have dc: "duplicate_count st' = duplicate_count st +
       (if is_candidate raw \<and> line_post_id raw \<in> dl \<and> Some (line_post_id raw) \<noteq> last_post_id st
        then 1 else 0)"
    using step_duplicate_count [of dl md mr st raw] step by simp
  have ml: "media_list st' = media_list st @
       (if is_candidate raw \<and> line_post_id raw \<notin> dl
        then [\<lparr>item_id = rsplit_dot_first (normalize_line raw), post_id = line_post_id raw,
               post_index = cur_post_index st',
               media_index = cur_media_index st + 1,
               filename = normalize_line raw, media_type = media_type_of (normalize_line raw)\<rparr>]
        else [])"
    using step_media_list [of dl md mr st raw] step by simp
  have br: "brk = (is_candidate raw \<and>
      (if line_post_id raw \<in> dl
       then Some (line_post_id raw) \<noteq> last_post_id st \<and> duplicate_count st + 1 \<ge> md
       else range_reached mr (cur_media_index st + 1)))"
    using step_break [of dl md mr st raw] step by simp
  have se: "stopped_early st' = (stopped_early st \<or> brk)"
    using step_stopped_early [of dl md mr st raw] step by simp
  show ?thesis
  proof (cases brk)
    case True
    with br dc ml se run show ?thesis
      by (auto simp: stop_reason_def scan_running_def split: if_splits)
  next
    case False
    with br dc ml se run show ?thesis
      by (auto simp: scan_running_def split: if_splits)
  qed
qed

lemma loop_stopped_early:
  "scan_running md mr st \<Longrightarrow>
   stopped_early (scan_posts_loop dl md mr st lines) =
     stop_reason md mr (scan_posts_loop dl md mr st lines)
   \<and> duplicate_count (scan_posts_loop dl md mr st lines) \<le> max md 1"
proof (induction lines arbitrary: st)
  case Nil
  then show ?case by (auto simp: scan_running_def stop_reason_def)
next
  case (Cons raw rest)
  obtain st' brk where step: "scan_posts_step dl md mr st raw = (st', brk)"
    by (cases "scan_posts_step dl md mr st raw")
  from step_running [OF Cons.prems step]
  show ?case using step Cons.IH [of st'] by (cases brk) simp_all
qed

lemma loop_emitted_new:
  "\<forall>m \<in> set (media_list (scan_posts_loop dl md mr st lines)).
      m \<in> set (media_list st) \<or> post_id m \<notin> dl"
proof (induction lines arbitrary: st)
  case Nil
  show ?case by simp
next
  case (Cons raw rest)
  obtain st' brk where step: "scan_posts_step dl md mr st raw = (st', brk)"
    by (cases "scan_posts_step dl md mr st raw")
  have ml: "\<forall>m \<in> set (media_list st'). m \<in> set (media_list st) \<or> post_id m \<notin> dl"
    using step_media_list [of dl md mr st raw] step by (auto split: if_splits)
  show ?case
  proof (cases brk)
    case True
    with step ml show ?thesis by simp
  next
    case False
    with step ml Cons.IH [of st'] show ?thesis by auto
  qed
qed

subsection \<open>The threshold as the settings hold it\<close>

lemma iteration_at_integer:
  "scan_posts_iteration dl (Int_setting md) mr st raw = Inr (scan_posts_step dl md mr st raw)"
  by (simp add: scan_posts_iteration_def scan_posts_step_def count_reaches_def Let_def)

lemma run_at_integer:
  "scan_posts_run dl (Int_setting md) mr st lines = Inr (scan_posts_loop dl md mr st lines)"
  by (induction lines arbitrary: st) (auto simp: iteration_at_integer split: prod.splits)

lemma iteration_at_text:
  "scan_posts_iteration dl (Str_setting t) mr st raw =
     (if is_candidate raw \<and> line_post_id raw \<in> dl \<and> Some (line_post_id raw) \<noteq> last_post_id st
      then Inl TypeError
      else Inr (scan_posts_step dl 1 mr st raw))"
  by (simp add: scan_posts_iteration_def scan_posts_step_def count_reaches_def Let_def
      is_candidate_def line_post_id_def)

lemma loop_duplicate_count_mono:
  "duplicate_count st \<le> duplicate_count (scan_posts_loop dl md mr st lines)"
proof (induction lines arbitrary: st)
  case Nil
  show ?case by simp
next
  case (Cons raw rest)
  obtain st' brk where step: "scan_posts_step dl md mr st raw = (st', brk)"
    by (cases "scan_posts_step dl md mr st raw")
  have dc: "duplicate_count st \<le> duplicate_count st'"
    using step_duplicate_count [of dl md mr st raw] step by simp
  show ?case
  proof (cases brk)
    case True
    with step dc show ?thesis by simp
  next
    case False
    with step dc Cons.IH [of st'] show ?thesis by simp
  qed
qed

lemma run_at_text:
  "0 \<le> duplicate_count st \<Longrightarrow>
   scan_posts_run dl (Str_setting t) mr st lines =
     (if duplicate_count st < duplicate_count (scan_posts_loop dl 1 mr st lines)
      then Inl TypeError
      else Inr (scan_posts_loop dl 1 mr st lines))"
proof (induction lines arbitrary: st)
  case Nil
  show ?case by simp
next
  case (Cons raw rest)
  obtain st' brk where step: "scan_posts_step dl 1 mr st raw = (st', brk)"
    by (cases "scan_posts_step dl 1 mr st raw")
  have dc: "duplicate_count st' = duplicate_count st +
       (if is_candidate raw \<and> line_post_id raw \<in> dl \<and> Some (line_post_id raw) \<noteq> last_post_id st
        then 1 else 0)"
    using step_duplicate_count [of dl 1 mr st raw] step by simp
  have br: "brk = (is_candidate raw \<and>
      (if line_post_id raw \<in> dl
       then Some (line_post_id raw) \<noteq> last_post_id st \<and> duplicate_count st + 1 \<ge> 1
       else range_reached mr (cur_media_index st + 1)))"
    using step_break [of dl 1 mr st raw] step by simp
  show ?case
  proof (cases "is_candidate raw \<and> line_post_id raw \<in> dl \<and> Some (line_post_id raw) \<noteq> last_post_id st")
    case True
    with br Cons.prems have "brk" by simp
    with True step dc show ?thesis by (simp add: iteration_at_text)
  next
    case False
    with dc have same: "duplicate_count st' = duplicate_count st" by auto
    show ?thesis
    proof (cases brk)
      case True
      with False step same show ?thesis by (simp add: iteration_at_text)
    next
      case nb: False
      from same Cons.prems have "0 \<le> duplicate_count st'" by simp
      from Cons.IH [OF this] False step nb same show ?thesis
        by (auto simp: iteration_at_text)
    qed
  qed
qed

lemma text_threshold_aborts_scan:
  "run_gallery_dl_scan_posts (Completed lines returncode) ids mr (Str_setting t) =
     (if duplicate_count (scan_posts ids 1 mr lines) = 0
      then (media_list (scan_posts ids 1 mr lines),
            media_list (scan_posts ids 1 mr lines) \<noteq> [] \<or> returncode = 0,
            stopped_early (scan_posts ids 1 mr lines))
      else ([], False, False))"
proof -
  have "0 \<le> duplicate_count (scan_posts ids 1 mr lines)"
    using loop_duplicate_count_mono [of init_state "downloaded_post_ids ids" 1 mr lines]
    by (simp add: scan_posts_def init_state_def)
  then show ?thesis
    using run_at_text [of init_state "downloaded_post_ids ids" t mr lines]
    by (auto simp: run_gallery_dl_scan_posts_def scan_posts_def init_state_def)
qed

lemma text_threshold_example:
  "run_gallery_dl_scan_posts (Completed [''# 2_1.jpg'', ''# 1_1.jpg'', ''# 3_1.jpg''] 0)
     [''1_1.JPG''] None (Str_setting ''3'') = ([], False, False)"
  by code_simp

subsection \<open>Where the scan stops\<close>

lemma spec_previous_group_snoc:
  "spec_previous_group (xs @ [x]) =
     (if is_candidate x then Some (line_post_id x) else spec_previous_group xs)"
  by (simp add: spec_previous_group_def)

lemma spec_count_snoc:
  "spec_new_group_duplicates dl prev (xs @ [x]) =
     spec_new_group_duplicates dl prev xs +
       (if is_candidate x \<and> line_post_id x \<in> dl \<and>
           Some (line_post_id x) \<noteq>
             (case rev (filter is_candidate xs) of [] \<Rightarrow> prev | r # _ \<Rightarrow> Some (line_post_id r))
        then 1 else 0)"
proof (induction xs arbitrary: prev)
  case Nil
  show ?case by simp
next
  case (Cons y ys)
  show ?case
  proof (cases "is_candidate y")
    case True
    with Cons.IH [of "Some (line_post_id y)"] show ?thesis
      by (cases "rev (filter is_candidate ys)") simp_all
  next
    case False
    with Cons.IH [of prev] show ?thesis by simp
  qed
qed

lemma spec_count_snoc_None:
  "spec_new_group_duplicates dl None (xs @ [x]) =
     spec_new_group_duplicates dl None xs +
       (if is_candidate x \<and> line_post_id x \<in> dl \<and>
           Some (line_post_id x) \<noteq> spec_previous_group xs
        then 1 else 0)"
  by (simp add: spec_count_snoc spec_previous_group_def)

lemma tracks_step:
  assumes tr: "tracks dl before st"
    and step: "scan_posts_step dl md mr st raw = (st', brk)"
  shows "brk = spec_stop_at dl md mr (before @ raw # rest) (length before)"
    and "\<not> brk \<Longrightarrow> tracks dl (before @ [raw]) st'"
proof -
  have dc: "duplicate_count st' = duplicate_count st +
       (if is_candidate raw \<and> line_post_id raw \<in> dl \<and> Some (line_post_id raw) \<noteq> last_post_id st
        then 1 else 0)"
    using step_duplicate_count [of dl md mr st raw] step by simp
  have lp: "last_post_id st' = (if is_candidate raw then Some (line_post_id raw) else last_post_id st)"
    using step_last_post_id [of dl md mr st raw] step by simp
  have mi: "cur_media_index st' = cur_media_index st + (if is_candidate raw then 1 else 0)"
    using step_media_index [of dl md mr st raw] step by simp
  have br: "brk = (is_candidate raw \<and>
      (if line_post_id raw \<in> dl
       then Some (line_post_id raw) \<noteq> last_post_id st \<and> duplicate_count st + 1 \<ge> md
       else range_reached mr (cur_media_index st + 1)))"
    using step_break [of dl md mr st raw] step by simp
  have se: "stopped_early st' = (stopped_early st \<or> brk)"
    using step_stopped_early [of dl md mr st raw] step by simp
  have tk: "take (Suc (length before)) (before @ raw # rest) = before @ [raw]"
    by simp
  show "brk = spec_stop_at dl md mr (before @ raw # rest) (length before)"
    using tr br unfolding spec_stop_at_def tk
    by (auto simp: tracks_def spec_count_snoc_None)
  show "tracks dl (before @ [raw]) st'" if "\<not> brk"
    using tr that dc lp mi se
    by (auto simp: tracks_def spec_count_snoc_None spec_previous_group_snoc)
qed

lemma consumed_prefix:
  "consumed_lines dl md mr st lines = take (length (consumed_lines dl md mr st lines)) lines"
proof (induction lines arbitrary: st)
  case Nil
  show ?case by simp
next
  case (Cons raw rest)
  obtain st' brk where step: "scan_posts_step dl md mr st raw = (st', brk)"
    by (cases "scan_posts_step dl md mr st raw")
  show ?case
  proof (cases brk)
    case True
    with step show ?thesis by simp
  next
    case False
    with step Cons.IH [of st'] show ?thesis by simp
  qed
qed

lemma consumed_characterised:
  assumes "tracks dl before st"
  shows "(\<forall>k<length lines.
            (k < length (consumed_lines dl md mr st lines)) =
            (\<forall>j<k. \<not> spec_stop_at dl md mr (before @ lines) (length before + j)))
       \<and> stopped_early (scan_posts_loop dl md mr st lines) =
           (\<exists>j<length lines. spec_stop_at dl md mr (before @ lines) (length before + j))"
  using assms
proof (induction lines arbitrary: st before)
  case Nil
  then show ?case by (simp add: tracks_def)
next
  case (Cons raw rest)
  obtain st' brk where step: "scan_posts_step dl md mr st raw = (st', brk)"
    by (cases "scan_posts_step dl md mr st raw")
  have here: "brk = spec_stop_at dl md mr (before @ raw # rest) (length before)"
    by (rule tracks_step(1) [OF Cons.prems step])
  have shift: "spec_stop_at dl md mr (before @ raw # rest) (length before + Suc j) =
      spec_stop_at dl md mr ((before @ [raw]) @ rest) (length (before @ [raw]) + j)" for j
    by simp
  show ?case
  proof (cases brk)
    case True
    have se: "stopped_early st'"
      using step_stopped_early [of dl md mr st raw] step True by simp
    have "(k < length (consumed_lines dl md mr st (raw # rest))) =
          (\<forall>j<k. \<not> spec_stop_at dl md mr (before @ raw # rest) (length before + j))"
      if "k < length (raw # rest)" for k
    proof (cases k)
      case 0
      with step True show ?thesis by simp
    next
      case (Suc k')
      have "\<exists>j<k. spec_stop_at dl md mr (before @ raw # rest) (length before + j)"
        using here True Suc by (intro exI [of _ 0]) simp
      with step True Suc show ?thesis by auto
    qed
    moreover have "\<exists>j<length (raw # rest). spec_stop_at dl md mr (before @ raw # rest) (length before + j)"
      using here True by (intro exI [of _ 0]) simp
    ultimately show ?thesis using step True se by simp
  next
    case False
    have tr': "tracks dl (before @ [raw]) st'"
      by (rule tracks_step(2) [OF Cons.prems step False])
    note IH = Cons.IH [OF tr']
    have not0: "\<not> spec_stop_at dl md mr (before @ raw # rest) (length before + 0)"
      using here False by simp
    have a: "(k < length (consumed_lines dl md mr st (raw # rest))) =
          (\<forall>j<k. \<not> spec_stop_at dl md mr (before @ raw # rest) (length before + j))"
      if "k < length (raw # rest)" for k
    proof (cases k)
      case 0
      with step False show ?thesis by simp
    next
      case (Suc k')
      with that have k': "k' < length rest" by simp
      have "(k < length (consumed_lines dl md mr st (raw # rest))) =
            (k' < length (consumed_lines dl md mr st' rest))"
        using step False Suc by simp
      also have "\<dots> = (\<forall>j<k'. \<not> spec_stop_at dl md mr ((before @ [raw]) @ rest)
                          (length (before @ [raw]) + j))"
        using IH k' by blast
      also have "\<dots> = (\<forall>j<k'. \<not> spec_stop_at dl md mr (before @ raw # rest) (length before + Suc j))"
        by (simp only: shift)
      also have "\<dots> = (\<forall>j<Suc k'. \<not> spec_stop_at dl md mr (before @ raw # rest) (length before + j))"
        using not0 by (simp add: All_less_Suc2)
      finally show ?thesis using Suc by simp
    qed
    have "stopped_early (scan_posts_loop dl md mr st (raw # rest)) =
          stopped_early (scan_posts_loop dl md mr st' rest)"
      using step False by simp
    also have "\<dots> = (\<exists>j<length rest. spec_stop_at dl md mr ((before @ [raw]) @ rest)
                          (length (before @ [raw]) + j))"
      using IH by blast
    also have "\<dots> = (\<exists>j<length rest. spec_stop_at dl md mr (before @ raw # rest) (length before + Suc j))"
      by (simp only: shift)
    also have "\<dots> = (\<exists>j<length (raw # rest). spec_stop_at dl md mr (before @ raw # rest) (length before + j))"
      using not0 by (simp add: Ex_less_Suc2)
    finally have b: "stopped_early (scan_posts_loop dl md mr st (raw # rest)) =
        (\<exists>j<length (raw # rest). spec_stop_at dl md mr (before @ raw # rest) (length before + j))" .
    from a b show ?thesis by blast
  qed
qed

lemma loop_emitted_filenames:
  "map filename (media_list (scan_posts_loop dl md mr st lines)) =
     map filename (media_list st) @
     map normalize_line
       (filter (\<lambda>raw. is_candidate raw \<and> line_post_id raw \<notin> dl) (consumed_lines dl md mr st lines))"
proof (induction lines arbitrary: st)
  case Nil
  show ?case by simp
next
  case (Cons raw rest)
  obtain st' brk where step: "scan_posts_step dl md mr st raw = (st', brk)"
    by (cases "scan_posts_step dl md mr st raw")
  have ml: "map filename (media_list st') = map filename (media_list st) @
       (if is_candidate raw \<and> line_post_id raw \<notin> dl then [normalize_line raw] else [])"
    using step_media_list [of dl md mr st raw] step by simp
  show ?case
  proof (cases brk)
    case True
    with step ml show ?thesis by simp
  next
    case False
    with step ml Cons.IH [of st'] show ?thesis by simp
  qed
qed

text \<open>
  Claim C1, as the code has it, for an integer threshold (the default 3 is one). The
  function returns the emitted items and the flag \<open>stopped_early\<close> of the loop. The lines
  are read in order; a line is read if and only if no line before it is a place where the
  scan stops: a candidate that is a duplicate, starts a new group and brings the streak to
  the threshold, or a new candidate whose position reaches a non-zero \<open>max_range\<close>. The
  flag \<open>stopped_early\<close> is set if and only if the listing has such a place; otherwise every
  line is read. The streak \<open>duplicate_count\<close> is the number of candidates read that are
  duplicates and start a new group: it is never reset and grows for nothing else, and it
  never exceeds the threshold (a threshold below 1 acts as 1, since the test follows the
  increment). The flag is set if and only if the streak has reached the threshold or the
  last emitted item has reached the \<open>max_range\<close>; without a \<open>max_range\<close>, if and only if the
  streak has reached the threshold. The emitted items are the candidates read that are not
  duplicates, so the candidate that stops the scan on the threshold is not emitted.
\<close>

theorem duplicate_streak_and_early_stop:
  "run_gallery_dl_scan_posts (Completed lines returncode) ids mr (Int_setting md) =
     (media_list (scan_posts ids md mr lines),
      media_list (scan_posts ids md mr lines) \<noteq> [] \<or> returncode = 0,
      stopped_early (scan_posts ids md mr lines))
   \<and> consumed_lines (downloaded_post_ids ids) md mr init_state lines =
       take (length (consumed_lines (downloaded_post_ids ids) md mr init_state lines)) lines
   \<and> (\<forall>k<length lines.
         (k < length (consumed_lines (downloaded_post_ids ids) md mr init_state lines)) =
         (\<forall>j<k. \<not> spec_stop_at (downloaded_post_ids ids) md mr lines j))
   \<and> (stopped_early (scan_posts ids md mr lines) \<longleftrightarrow>
        (\<exists>j<length lines. spec_stop_at (downloaded_post_ids ids) md mr lines j))
   \<and> duplicate_count (scan_posts ids md mr lines) =
       spec_new_group_duplicates (downloaded_post_ids ids) None
         (consumed_lines (downloaded_post_ids ids) md mr init_state lines)
   \<and> duplicate_count (scan_posts ids md mr lines) \<le> max md 1
   \<and> (stopped_early (scan_posts ids md mr lines) \<longleftrightarrow>
        max md 1 \<le> duplicate_count (scan_posts ids md mr lines) \<or>
        (media_list (scan_posts ids md mr lines) \<noteq> [] \<and>
         range_reached mr (media_index (last (media_list (scan_posts ids md mr lines))))))
   \<and> (mr = None \<longrightarrow>
        (stopped_early (scan_posts ids md mr lines) \<longleftrightarrow>
           max md 1 \<le> duplicate_count (scan_posts ids md mr lines)))
   \<and> map filename (media_list (scan_posts ids md mr lines)) =
       map normalize_line
         (filter (\<lambda>raw. is_candidate raw \<and> line_post_id raw \<notin> downloaded_post_ids ids)
            (consumed_lines (downloaded_post_ids ids) md mr init_state lines))
   \<and> (\<forall>m \<in> set (media_list (scan_posts ids md mr lines)).
        post_id m \<notin> downloaded_post_ids ids)"
proof -
  let ?dl = "downloaded_post_ids ids"
  let ?r = "scan_posts ids md mr lines"
  let ?c = "consumed_lines ?dl md mr init_state lines"
  have ret: "run_gallery_dl_scan_posts (Completed lines returncode) ids mr (Int_setting md) =
     (media_list ?r, media_list ?r \<noteq> [] \<or> returncode = 0, stopped_early ?r)"
    by (simp add: run_gallery_dl_scan_posts_def run_at_integer scan_posts_def)
  have pre: "?c = take (length ?c) lines"
    by (rule consumed_prefix)
  have tr: "tracks ?dl [] init_state"
    by (simp add: tracks_def init_state_def spec_previous_group_def)
  have read: "\<forall>k<length lines. (k < length ?c) = (\<forall>j<k. \<not> spec_stop_at ?dl md mr lines j)"
    and flag: "stopped_early ?r \<longleftrightarrow> (\<exists>j<length lines. spec_stop_at ?dl md mr lines j)"
    using consumed_characterised [OF tr, of lines md mr]
    by (simp_all add: scan_posts_def)
  have count: "duplicate_count ?r = spec_new_group_duplicates ?dl None ?c"
    using loop_duplicate_count [of ?dl md mr init_state lines]
    by (simp add: scan_posts_def init_state_def)
  have "scan_running md mr init_state"
    by (simp add: scan_running_def init_state_def)
  then have stop: "stopped_early ?r = stop_reason md mr ?r"
    and le: "duplicate_count ?r \<le> max md 1"
    using loop_stopped_early [of md mr init_state ?dl lines]
    by (simp_all add: scan_posts_def)
  have emitted: "\<forall>m \<in> set (media_list ?r). post_id m \<notin> ?dl"
    using loop_emitted_new [of ?dl md mr init_state lines]
    by (simp add: scan_posts_def init_state_def)
  have names: "map filename (media_list ?r) =
      map normalize_line (filter (\<lambda>raw. is_candidate raw \<and> line_post_id raw \<notin> ?dl) ?c)"
    using loop_emitted_filenames [of ?dl md mr init_state lines]
    by (simp add: scan_posts_def init_state_def)
  have none: "mr = None \<longrightarrow> (stopped_early ?r \<longleftrightarrow> max md 1 \<le> duplicate_count ?r)"
    using stop by (auto simp: stop_reason_def range_reached_def)
  have stop': "stopped_early ?r \<longleftrightarrow>
      max md 1 \<le> duplicate_count ?r \<or>
      (media_list ?r \<noteq> [] \<and> range_reached mr (media_index (last (media_list ?r))))"
    using stop by (simp add: stop_reason_def)
  show ?thesis
    by (intro conjI) (rule ret pre read flag count le stop' none names emitted)+
qed

theorem duplicate_streak_and_early_stop_witness:
  "spec_stop_at (downloaded_post_ids [''1_1.JPG'', ''2_1.JPG'', ''4_1.JPG''])
       default_max_consecutive_duplicates None
       [''# 1_1.jpg'', ''# 1_2.jpg'', ''# 2_1.jpg'', ''# 3_1.jpg'', ''# 4_1.jpg'', ''# 5_1.jpg''] 4
   \<and> stopped_early (scan_posts [''1_1.JPG'', ''2_1.JPG'', ''4_1.JPG'']
        default_max_consecutive_duplicates None
        [''# 1_1.jpg'', ''# 1_2.jpg'', ''# 2_1.jpg'', ''# 3_1.jpg'', ''# 4_1.jpg'', ''# 5_1.jpg''])
   \<and> \<not> 5 < length (consumed_lines (downloaded_post_ids [''1_1.JPG'', ''2_1.JPG'', ''4_1.JPG''])
        default_max_consecutive_duplicates None init_state
        [''# 1_1.jpg'', ''# 1_2.jpg'', ''# 2_1.jpg'', ''# 3_1.jpg'', ''# 4_1.jpg'', ''# 5_1.jpg''])
   \<and> snd (snd (run_gallery_dl_scan_posts
        (Completed [''# 1_1.jpg'', ''# 1_2.jpg'', ''# 2_1.jpg'', ''# 3_1.jpg'', ''# 4_1.jpg'', ''# 5_1.jpg''] 0)
        [''1_1.JPG'', ''2_1.JPG'', ''4_1.JPG''] None (Int_setting default_max_consecutive_duplicates)))
   \<and> duplicate_count (scan_posts [''1_1.JPG'', ''2_1.JPG'', ''4_1.JPG'']
        default_max_consecutive_duplicates None
        [''# 1_1.jpg'', ''# 1_2.jpg'', ''# 2_1.jpg'', ''# 3_1.jpg'', ''# 4_1.jpg'', ''# 5_1.jpg'']) = 3
   \<and> map post_id (media_list (scan_posts [''1_1.JPG'', ''2_1.JPG'', ''4_1.JPG'']
        default_max_consecutive_duplicates None
        [''# 1_1.jpg'', ''# 1_2.jpg'', ''# 2_1.jpg'', ''# 3_1.jpg'', ''# 4_1.jpg'', ''# 5_1.jpg''])) = [''3'']
   \<and> ''3'' \<notin> downloaded_post_ids [''1_1.JPG'', ''2_1.JPG'', ''4_1.JPG'']"
proof -
  let ?ids = "[''1_1.JPG'', ''2_1.JPG'', ''4_1.JPG'']"
  let ?lines = "[''# 1_1.jpg'', ''# 1_2.jpg'', ''# 2_1.jpg'', ''# 3_1.jpg'', ''# 4_1.jpg'', ''# 5_1.jpg'']"
  let ?md = "default_max_consecutive_duplicates"
  let ?r = "scan_posts ?ids ?md None ?lines"
  let ?c = "consumed_lines (downloaded_post_ids ?ids) ?md None init_state ?lines"
  have len: "length ?lines = 6"
    by simp
  have at4: "spec_stop_at (downloaded_post_ids ?ids) ?md None ?lines 4"
    by code_simp
  have count: "duplicate_count ?r = 3"
    by code_simp
  have emitted: "map post_id (media_list ?r) = [''3'']"
    by code_simp
  then have first: "post_id (hd (media_list ?r)) = ''3''"
    and mem: "hd (media_list ?r) \<in> set (media_list ?r)"
    by (cases "media_list ?r"; simp)+
  note t = duplicate_streak_and_early_stop [of ?lines 0 ?ids None ?md]
  from t have flag: "stopped_early ?r \<longleftrightarrow>
      (\<exists>j<length ?lines. spec_stop_at (downloaded_post_ids ?ids) ?md None ?lines j)"
    by blast
  have ex: "\<exists>j<length ?lines. spec_stop_at (downloaded_post_ids ?ids) ?md None ?lines j"
    using at4 by (intro exI [of _ 4]) simp
  with flag have stop: "stopped_early ?r"
    by blast
  from t have read: "\<forall>k<length ?lines. (k < length ?c) =
      (\<forall>j<k. \<not> spec_stop_at (downloaded_post_ids ?ids) ?md None ?lines j)"
    by blast
  have "(5 < length ?c) = (\<forall>j<5. \<not> spec_stop_at (downloaded_post_ids ?ids) ?md None ?lines j)"
    using read [rule_format, of 5] by simp
  moreover have "\<not> (\<forall>j<5. \<not> spec_stop_at (downloaded_post_ids ?ids) ?md None ?lines j)"
    using at4 by (auto intro: exI [of _ 4])
  ultimately have unread: "\<not> 5 < length ?c"
    by blast
  from t have "run_gallery_dl_scan_posts (Completed ?lines 0) ?ids None (Int_setting ?md) =
      (media_list ?r, media_list ?r \<noteq> [] \<or> (0::int) = 0, stopped_early ?r)"
    by blast
  with stop have ret: "snd (snd (run_gallery_dl_scan_posts (Completed ?lines 0) ?ids None (Int_setting ?md)))"
    by simp
  from t mem have "post_id (hd (media_list ?r)) \<notin> downloaded_post_ids ?ids"
    by blast
  then have new: "''3'' \<notin> downloaded_post_ids ?ids"
    unfolding first .
  from at4 stop unread ret count emitted new show ?thesis by blast
qed

text \<open>
  Claim C1 as stated fails when a \<open>max_range\<close> is configured: with \<open>max_range = 1\<close> the scan
  stops early after the first new item, with a streak of 0 under the threshold 3.
\<close>

theorem early_stop_counterexample:
  "stopped_early (scan_posts [] 3 (Some 1) [''# 1_1.jpg'', ''# 2_1.jpg''])
   \<and> duplicate_count (scan_posts [] 3 (Some 1) [''# 1_1.jpg'', ''# 2_1.jpg'']) = 0
   \<and> \<not> 3 \<le> duplicate_count (scan_posts [] 3 (Some 1) [''# 1_1.jpg'', ''# 2_1.jpg''])"
  by code_simp

section \<open>The example of six groups\<close>

lemma loop_append:
  "\<not> stopped_early st \<Longrightarrow>
   scan_posts_loop dl md mr st (xs @ ys) =
     (if stopped_early (scan_posts_loop dl md mr st xs) then scan_posts_loop dl md mr st xs
      else scan_posts_loop dl md mr (scan_posts_loop dl md mr st xs) ys)"
proof (induction xs arbitrary: st)
  case Nil
  then show ?case by simp
next
  case (Cons raw rest)
  obtain st' brk where step: "scan_posts_step dl md mr st raw = (st', brk)"
    by (cases "scan_posts_step dl md mr st raw")
  have se: "stopped_early st' = brk"
    using step_stopped_early [of dl md mr st raw] step Cons.prems by simp
  show ?case
  proof (cases brk)
    case True
    with step se show ?thesis by simp
  next
    case False
    with step se Cons.IH [of st'] show ?thesis by simp
  qed
qed

text \<open>A run of further lines of a group that is a duplicate and already counted.\<close>

lemma loop_same_group_duplicates:
  assumes "\<forall>l \<in> set ls. is_candidate l \<and> line_post_id l = p"
    and "p \<in> dl" and "last_post_id st = Some p" and "\<not> stopped_early st"
  shows "\<not> stopped_early (scan_posts_loop dl md mr st ls)
       \<and> duplicate_count (scan_posts_loop dl md mr st ls) = duplicate_count st
       \<and> last_post_id (scan_posts_loop dl md mr st ls) = Some p
       \<and> cur_post_index (scan_posts_loop dl md mr st ls) = cur_post_index st
       \<and> cur_media_index (scan_posts_loop dl md mr st ls) = cur_media_index st + int (length ls)
       \<and> media_list (scan_posts_loop dl md mr st ls) = media_list st"
  using assms
proof (induction ls arbitrary: st)
  case Nil
  then show ?case by simp
next
  case (Cons raw rest)
  obtain st' brk where step: "scan_posts_step dl md mr st raw = (st', brk)"
    by (cases "scan_posts_step dl md mr st raw")
  have cand: "is_candidate raw" and pid: "line_post_id raw = p"
    using Cons.prems(1) by simp_all
  have br: "\<not> brk"
    using step_break [of dl md mr st raw] step cand pid Cons.prems(2,3) by simp
  have se: "\<not> stopped_early st'"
    using step_stopped_early [of dl md mr st raw] step br Cons.prems(4) by simp
  have dc: "duplicate_count st' = duplicate_count st"
    using step_duplicate_count [of dl md mr st raw] step cand pid Cons.prems(2,3) by simp
  have lp: "last_post_id st' = Some p"
    using step_last_post_id [of dl md mr st raw] step cand pid by simp
  have pi: "cur_post_index st' = cur_post_index st"
    using step_post_index [of dl md mr st raw] step cand pid Cons.prems(3) by simp
  have mi: "cur_media_index st' = cur_media_index st + 1"
    using step_media_index [of dl md mr st raw] step cand by simp
  have ml: "media_list st' = media_list st"
    using step_media_list [of dl md mr st raw] step cand pid Cons.prems(2) by simp
  have rest: "\<forall>l \<in> set rest. is_candidate l \<and> line_post_id l = p"
    using Cons.prems(1) by simp
  from Cons.IH [OF rest Cons.prems(2) lp se] step br dc pi mi ml
  show ?case by simp
qed

text \<open>A whole group that is a duplicate, met below the threshold.\<close>

lemma loop_duplicate_group:
  assumes "g \<noteq> []" and "\<forall>l \<in> set g. is_candidate l \<and> line_post_id l = p"
    and "p \<in> dl" and "last_post_id st \<noteq> Some p" and "\<not> stopped_early st"
    and "duplicate_count st + 1 < md"
  shows "\<not> stopped_early (scan_posts_loop dl md mr st g)
       \<and> duplicate_count (scan_posts_loop dl md mr st g) = duplicate_count st + 1
       \<and> last_post_id (scan_posts_loop dl md mr st g) = Some p
       \<and> cur_post_index (scan_posts_loop dl md mr st g) = cur_post_index st + 1
       \<and> cur_media_index (scan_posts_loop dl md mr st g) = cur_media_index st + int (length g)
       \<and> media_list (scan_posts_loop dl md mr st g) = media_list st"
proof -
  from assms(1) obtain raw rest where g: "g = raw # rest"
    by (cases g) auto
  obtain st' brk where step: "scan_posts_step dl md mr st raw = (st', brk)"
    by (cases "scan_posts_step dl md mr st raw")
  have cand: "is_candidate raw" and pid: "line_post_id raw = p"
    using assms(2) g by simp_all
  have br: "\<not> brk"
    using step_break [of dl md mr st raw] step cand pid assms(3,4,6) by simp
  have se: "\<not> stopped_early st'"
    using step_stopped_early [of dl md mr st raw] step br assms(5) by simp
  have dc: "duplicate_count st' = duplicate_count st + 1"
    using step_duplicate_count [of dl md mr st raw] step cand pid assms(3,4) by simp
  have lp: "last_post_id st' = Some p"
    using step_last_post_id [of dl md mr st raw] step cand pid by simp
  have pi: "cur_post_index st' = cur_post_index st + 1"
    using step_post_index [of dl md mr st raw] step cand pid assms(4) by simp
  have mi: "cur_media_index st' = cur_media_index st + 1"
    using step_media_index [of dl md mr st raw] step cand by simp
  have ml: "media_list st' = media_list st"
    using step_media_list [of dl md mr st raw] step cand pid assms(3) by simp
  have rest: "\<forall>l \<in> set rest. is_candidate l \<and> line_post_id l = p"
    using assms(2) g by simp
  from loop_same_group_duplicates [OF rest assms(3) lp se, of md mr] step br dc pi mi ml g
  show ?thesis by simp
qed

text \<open>A run of lines of one group that is new, with no \<open>max_range\<close>.\<close>

lemma loop_new_group:
  assumes "\<forall>l \<in> set g. is_candidate l \<and> line_post_id l = p"
    and "p \<notin> dl" and "\<not> stopped_early st"
  shows "\<not> stopped_early (scan_posts_loop dl md None st g)
       \<and> duplicate_count (scan_posts_loop dl md None st g) = duplicate_count st
       \<and> last_post_id (scan_posts_loop dl md None st g) = (if g = [] then last_post_id st else Some p)
       \<and> cur_post_index (scan_posts_loop dl md None st g) =
           cur_post_index st + (if g \<noteq> [] \<and> last_post_id st \<noteq> Some p then 1 else 0)
       \<and> cur_media_index (scan_posts_loop dl md None st g) = cur_media_index st + int (length g)
       \<and> map filename (media_list (scan_posts_loop dl md None st g)) =
           map filename (media_list st) @ map normalize_line g"
  using assms
proof (induction g arbitrary: st)
  case Nil
  then show ?case by simp
next
  case (Cons raw rest)
  obtain st' brk where step: "scan_posts_step dl md None st raw = (st', brk)"
    by (cases "scan_posts_step dl md None st raw")
  have cand: "is_candidate raw" and pid: "line_post_id raw = p"
    using Cons.prems(1) by simp_all
  have br: "\<not> brk"
    using step_break [of dl md None st raw] step cand pid Cons.prems(2)
    by (simp add: range_reached_def)
  have se: "\<not> stopped_early st'"
    using step_stopped_early [of dl md None st raw] step br Cons.prems(3) by simp
  have dc: "duplicate_count st' = duplicate_count st"
    using step_duplicate_count [of dl md None st raw] step cand pid Cons.prems(2) by simp
  have lp: "last_post_id st' = Some p"
    using step_last_post_id [of dl md None st raw] step cand pid by simp
  have pi: "cur_post_index st' = cur_post_index st + (if last_post_id st \<noteq> Some p then 1 else 0)"
    using step_post_index [of dl md None st raw] step cand pid by auto
  have mi: "cur_media_index st' = cur_media_index st + 1"
    using step_media_index [of dl md None st raw] step cand by simp
  have ml: "map filename (media_list st') = map filename (media_list st) @ [normalize_line raw]"
    using step_media_list [of dl md None st raw] step cand pid Cons.prems(2) by simp
  have rest: "\<forall>l \<in> set rest. is_candidate l \<and> line_post_id l = p"
    using Cons.prems(1) by simp
  from Cons.IH [OF rest Cons.prems(2) se] step br dc lp pi mi ml
  show ?case by simp
qed

text \<open>
  Claim C2, as the code has it. With the threshold 3 and no \<open>max_range\<close>, on a listing whose
  first groups are classified duplicate, duplicate, new, duplicate (D1, D2, N1, D3, each a
  non-empty run of candidate lines with one post id), the scan halts at the first line of D3,
  the third duplicate group and the fourth group processed, with the streak at 3, after
  3 duplicate groups and 1 new group; the lines that follow (the rest of D3, D4, D5) are
  not read, and the emitted items are the lines of N1.
\<close>

theorem example_groups_halt:
  assumes "g1 \<noteq> []" and "g2 \<noteq> []" and "g3 \<noteq> []"
    and "\<forall>l \<in> set g1. is_candidate l \<and> line_post_id l = p1 \<and> classified_duplicate ids l"
    and "\<forall>l \<in> set g2. is_candidate l \<and> line_post_id l = p2 \<and> classified_duplicate ids l"
    and "\<forall>l \<in> set g3. is_candidate l \<and> line_post_id l = p3 \<and> \<not> classified_duplicate ids l"
    and "p1 \<noteq> p2"
    and "is_candidate d3" and "classified_duplicate ids d3"
  shows "duplicate_count (scan_posts ids 3 None (g1 @ g2 @ g3 @ d3 # rest)) = 3
       \<and> stopped_early (scan_posts ids 3 None (g1 @ g2 @ g3 @ d3 # rest))
       \<and> cur_post_index (scan_posts ids 3 None (g1 @ g2 @ g3 @ d3 # rest)) = 4
       \<and> cur_media_index (scan_posts ids 3 None (g1 @ g2 @ g3 @ d3 # rest)) =
           int (length g1 + length g2 + length g3) + 1
       \<and> map filename (media_list (scan_posts ids 3 None (g1 @ g2 @ g3 @ d3 # rest))) =
           map normalize_line g3"
proof -
  let ?dl = "downloaded_post_ids ids"
  let ?s1 = "scan_posts_loop ?dl 3 None init_state g1"
  let ?s2 = "scan_posts_loop ?dl 3 None ?s1 g2"
  let ?s3 = "scan_posts_loop ?dl 3 None ?s2 g3"
  obtain l1 where l1: "l1 \<in> set g1" using assms(1) by (cases g1) auto
  obtain l2 where l2: "l2 \<in> set g2" using assms(2) by (cases g2) auto
  obtain l3 where l3: "l3 \<in> set g3" using assms(3) by (cases g3) auto
  have in1: "p1 \<in> ?dl" using assms(4) l1 by (auto simp: classified_duplicate_def)
  have in2: "p2 \<in> ?dl" using assms(5) l2 by (auto simp: classified_duplicate_def)
  have out3: "p3 \<notin> ?dl" using assms(6) l3 by (auto simp: classified_duplicate_def)
  have in4: "line_post_id d3 \<in> ?dl" using assms(9) by (simp add: classified_duplicate_def)
  have c1: "\<forall>l \<in> set g1. is_candidate l \<and> line_post_id l = p1" using assms(4) by simp
  have c2: "\<forall>l \<in> set g2. is_candidate l \<and> line_post_id l = p2" using assms(5) by simp
  have c3: "\<forall>l \<in> set g3. is_candidate l \<and> line_post_id l = p3" using assms(6) by simp
  have s1: "\<not> stopped_early ?s1 \<and> duplicate_count ?s1 = 1 \<and> last_post_id ?s1 = Some p1
      \<and> cur_post_index ?s1 = 1 \<and> cur_media_index ?s1 = int (length g1) \<and> media_list ?s1 = []"
    using loop_duplicate_group [OF assms(1) c1 in1, of init_state 3 None]
    by (simp add: init_state_def)
  have s2: "\<not> stopped_early ?s2 \<and> duplicate_count ?s2 = 2 \<and> last_post_id ?s2 = Some p2
      \<and> cur_post_index ?s2 = 2 \<and> cur_media_index ?s2 = int (length g1) + int (length g2)
      \<and> media_list ?s2 = []"
    using loop_duplicate_group [OF assms(2) c2 in2, of ?s1 3 None] s1 assms(7)
    by simp
  have ne: "p2 \<noteq> p3" using in2 out3 by auto
  have s3: "\<not> stopped_early ?s3 \<and> duplicate_count ?s3 = 2 \<and> last_post_id ?s3 = Some p3
      \<and> cur_post_index ?s3 = 3
      \<and> cur_media_index ?s3 = int (length g1) + int (length g2) + int (length g3)
      \<and> map filename (media_list ?s3) = map normalize_line g3"
    using loop_new_group [OF c3 out3, of ?s2 3] s2 assms(3) ne
    by simp
  have ne4: "line_post_id d3 \<noteq> p3" using in4 out3 by auto
  obtain st' brk where step: "scan_posts_step ?dl 3 None ?s3 d3 = (st', brk)"
    by (cases "scan_posts_step ?dl 3 None ?s3 d3")
  have br: "brk"
    using step_break [of ?dl 3 None ?s3 d3] step assms(8) in4 ne4 s3 by simp
  have fin: "stopped_early st' \<and> duplicate_count st' = 3 \<and> cur_post_index st' = 4
      \<and> cur_media_index st' = int (length g1) + int (length g2) + int (length g3) + 1
      \<and> map filename (media_list st') = map normalize_line g3"
    using step_stopped_early [of ?dl 3 None ?s3 d3] step_duplicate_count [of ?dl 3 None ?s3 d3]
      step_post_index [of ?dl 3 None ?s3 d3] step_media_index [of ?dl 3 None ?s3 d3]
      step_media_list [of ?dl 3 None ?s3 d3] step br assms(8) in4 ne4 s3
    by simp
  have last: "scan_posts_loop ?dl 3 None ?s3 (d3 # rest) = st'"
    using step br by simp
  have "scan_posts ids 3 None (g1 @ g2 @ g3 @ d3 # rest) = scan_posts_loop ?dl 3 None ?s3 (d3 # rest)"
    using s1 s2 s3 by (simp add: scan_posts_def loop_append init_state_def)
  with last fin show ?thesis by simp
qed

theorem example_groups_halt_witness:
  "duplicate_count (scan_posts [''1_1.JPG'', ''2_1.JPG'', ''4_1.JPG'', ''5_1.JPG'', ''6_1.JPG''] 3 None
       ([''# 1_1.jpg'', ''# 1_2.jpg''] @ [''# 2_1.jpg''] @ [''# 3_1.jpg'', ''# 3_2.mp4''] @
        ''# 4_1.jpg'' # [''# 5_1.jpg'', ''# 6_1.jpg''])) = 3
   \<and> stopped_early (scan_posts [''1_1.JPG'', ''2_1.JPG'', ''4_1.JPG'', ''5_1.JPG'', ''6_1.JPG''] 3 None
       ([''# 1_1.jpg'', ''# 1_2.jpg''] @ [''# 2_1.jpg''] @ [''# 3_1.jpg'', ''# 3_2.mp4''] @
        ''# 4_1.jpg'' # [''# 5_1.jpg'', ''# 6_1.jpg'']))
   \<and> cur_post_index (scan_posts [''1_1.JPG'', ''2_1.JPG'', ''4_1.JPG'', ''5_1.JPG'', ''6_1.JPG''] 3 None
       ([''# 1_1.jpg'', ''# 1_2.jpg''] @ [''# 2_1.jpg''] @ [''# 3_1.jpg'', ''# 3_2.mp4''] @
        ''# 4_1.jpg'' # [''# 5_1.jpg'', ''# 6_1.jpg''])) = 4
   \<and> cur_media_index (scan_posts [''1_1.JPG'', ''2_1.JPG'', ''4_1.JPG'', ''5_1.JPG'', ''6_1.JPG''] 3 None
       ([''# 1_1.jpg'', ''# 1_2.jpg''] @ [''# 2_1.jpg''] @ [''# 3_1.jpg'', ''# 3_2.mp4''] @
        ''# 4_1.jpg'' # [''# 5_1.jpg'', ''# 6_1.jpg''])) = 6
   \<and> map filename (media_list (scan_posts [''1_1.JPG'', ''2_1.JPG'', ''4_1.JPG'', ''5_1.JPG'', ''6_1.JPG''] 3 None
       ([''# 1_1.jpg'', ''# 1_2.jpg''] @ [''# 2_1.jpg''] @ [''# 3_1.jpg'', ''# 3_2.mp4''] @
        ''# 4_1.jpg'' # [''# 5_1.jpg'', ''# 6_1.jpg'']))) = [''3_1.JPG'', ''3_2.MP4'']"
proof -
  have n1: "[''# 1_1.jpg'', ''# 1_2.jpg''] \<noteq> []" by simp
  have n2: "[''# 2_1.jpg''] \<noteq> []" by simp
  have n3: "[''# 3_1.jpg'', ''# 3_2.mp4''] \<noteq> []" by simp
  have g1: "\<forall>l \<in> set [''# 1_1.jpg'', ''# 1_2.jpg''].
      is_candidate l \<and> line_post_id l = ''1'' \<and> classified_duplicate [''1_1.JPG'', ''2_1.JPG'', ''4_1.JPG'', ''5_1.JPG'', ''6_1.JPG''] l"
    by code_simp
  have g2: "\<forall>l \<in> set [''# 2_1.jpg''].
      is_candidate l \<and> line_post_id l = ''2'' \<and> classified_duplicate [''1_1.JPG'', ''2_1.JPG'', ''4_1.JPG'', ''5_1.JPG'', ''6_1.JPG''] l"
    by code_simp
  have g3: "\<forall>l \<in> set [''# 3_1.jpg'', ''# 3_2.mp4''].
      is_candidate l \<and> line_post_id l = ''3'' \<and> \<not> classified_duplicate [''1_1.JPG'', ''2_1.JPG'', ''4_1.JPG'', ''5_1.JPG'', ''6_1.JPG''] l"
    by code_simp
  have ne: "''1'' \<noteq> ''2''" by simp
  have c: "is_candidate ''# 4_1.jpg''" by code_simp
  have d: "classified_duplicate [''1_1.JPG'', ''2_1.JPG'', ''4_1.JPG'', ''5_1.JPG'', ''6_1.JPG''] ''# 4_1.jpg''" by code_simp
  have names: "normalize_line ''# 3_1.jpg'' = ''3_1.JPG''" "normalize_line ''# 3_2.mp4'' = ''3_2.MP4''"
    by code_simp+
  from example_groups_halt [OF n1 n2 n3 g1 g2 g3 ne c d, of "[''# 5_1.jpg'', ''# 6_1.jpg'']"]
  show ?thesis by (simp add: names)
qed

text \<open>
  Claim C2 as stated fails: on the groups D1, D2, N1, D3, D4, D5 (classified duplicate,
  duplicate, new, duplicate, duplicate, duplicate) the scan does not reach D4 as the fifth
  group with the streak at 4; it reads four lines and ends with the streak at 3 in group 4.
\<close>

theorem example_groups_counterexample:
  "map (classified_duplicate 
       [''1_1.JPG'', ''2_1.JPG'', ''4_1.JPG'', ''5_1.JPG'', ''6_1.JPG'']) 
       [''# 1_1.jpg'', ''# 2_1.jpg'', ''# 3_1.jpg'', ''# 4_1.jpg'', ''# 5_1.jpg'', ''# 6_1.jpg''] = [True, True, False, True, True, True]
   \<and> consumed_lines (downloaded_post_ids 
       [''1_1.JPG'', ''2_1.JPG'', ''4_1.JPG'', ''5_1.JPG'', ''6_1.JPG'']) 3 None init_state 
       [''# 1_1.jpg'', ''# 2_1.jpg'', ''# 3_1.jpg'', ''# 4_1.jpg'', ''# 5_1.jpg'', ''# 6_1.jpg'']
       = [''# 1_1.jpg'', ''# 2_1.jpg'', ''# 3_1.jpg'', ''# 4_1.jpg'']
   \<and> cur_post_index 
       (scan_posts [''1_1.JPG'', ''2_1.JPG'', ''4_1.JPG'', ''5_1.JPG'', ''6_1.JPG''] 3 None
        [''# 1_1.jpg'', ''# 2_1.jpg'', ''# 3_1.jpg'', ''# 4_1.jpg'', ''# 5_1.jpg'', ''# 6_1.jpg'']) = 4
   \<and> duplicate_count 
       (scan_posts [''1_1.JPG'', ''2_1.JPG'', ''4_1.JPG'', ''5_1.JPG'', ''6_1.JPG''] 3 None
        [''# 1_1.jpg'', ''# 2_1.jpg'', ''# 3_1.jpg'', ''# 4_1.jpg'', ''# 5_1.jpg'', ''# 6_1.jpg'']) = 3
   \<and> \<not> (cur_post_index 
       (scan_posts [''1_1.JPG'', ''2_1.JPG'', ''4_1.JPG'', ''5_1.JPG'', ''6_1.JPG''] 3 None
        [''# 1_1.jpg'', ''# 2_1.jpg'', ''# 3_1.jpg'', ''# 4_1.jpg'', ''# 5_1.jpg'', ''# 6_1.jpg'']) = 5 \<and> duplicate_count 
       (scan_posts [''1_1.JPG'', ''2_1.JPG'', ''4_1.JPG'', ''5_1.JPG'', ''6_1.JPG''] 3 None
        [''# 1_1.jpg'', ''# 2_1.jpg'', ''# 3_1.jpg'', ''# 4_1.jpg'', ''# 5_1.jpg'', ''# 6_1.jpg'']) = 4)"
  by code_simp

section \<open>Duplicates are judged by group\<close>

lemma fold_insert_image: "fold (\<lambda>x acc. insert (f x) acc) xs A = f ` set xs \<union> A"
  by (induction xs arbitrary: A) auto

lemma downloaded_post_ids_image: "downloaded_post_ids ids = archived_post_id ` set ids"
  by (simp add: downloaded_post_ids_def fold_insert_image)

lemma archived_post_id_line: "archived_post_id (normalize_line raw) = line_post_id raw"
  by (simp add: archived_post_id_def line_post_id_def rsplit_dot_first_def Let_def)

text \<open>
  Claim C3, as the code has it. A candidate of the scan of posts is classified as a duplicate
  if and only if its post id (the identifier without the suffix, up to the first underscore)
  is the post id of some full id in the archived list of the account. A candidate whose own
  full id is archived is therefore a duplicate, but so is every other file of an archived
  post. A candidate is left out of the emitted items exactly when it is a duplicate.
\<close>

theorem duplicate_is_group_level:
  assumes "is_candidate raw"
  shows "(classified_duplicate ids raw \<longleftrightarrow> (\<exists>a \<in> set ids. archived_post_id a = line_post_id raw))
       \<and> (normalize_line raw \<in> set ids \<longrightarrow> classified_duplicate ids raw)
       \<and> (media_list (fst (scan_posts_step (downloaded_post_ids ids) md mr st raw)) = media_list st
            \<longleftrightarrow> classified_duplicate ids raw)"
proof -
  have a: "classified_duplicate ids raw \<longleftrightarrow> (\<exists>a \<in> set ids. archived_post_id a = line_post_id raw)"
    unfolding classified_duplicate_def downloaded_post_ids_image image_iff by metis
  have b: "normalize_line raw \<in> set ids \<longrightarrow> classified_duplicate ids raw"
    using archived_post_id_line [of raw] a by blast
  have c: "media_list (fst (scan_posts_step (downloaded_post_ids ids) md mr st raw)) = media_list st
            \<longleftrightarrow> classified_duplicate ids raw"
    using assms step_media_list [of "downloaded_post_ids ids" md mr st raw]
    by (simp add: classified_duplicate_def)
  show ?thesis by (intro conjI) (rule a b c)+
qed

theorem duplicate_is_group_level_witness:
  "is_candidate ''# 1_2.jpg''
   \<and> normalize_line ''# 1_2.jpg'' \<in> set [''1_2.JPG'']
   \<and> classified_duplicate [''1_2.JPG''] ''# 1_2.jpg''
   \<and> (\<exists>a \<in> set [''1_2.JPG'']. archived_post_id a = line_post_id ''# 1_2.jpg'')
   \<and> media_list (fst (scan_posts_step (downloaded_post_ids [''1_2.JPG'']) 3 None init_state ''# 1_2.jpg''))
       = media_list init_state"
proof -
  have c: "is_candidate ''# 1_2.jpg''" by code_simp
  have n: "normalize_line ''# 1_2.jpg'' \<in> set [''1_2.JPG'']" by code_simp
  note t = duplicate_is_group_level [OF c, of "[''1_2.JPG'']" 3 None init_state]
  from t n have d: "classified_duplicate [''1_2.JPG''] ''# 1_2.jpg''"
    by blast
  from t d
  have "(\<exists>a \<in> set [''1_2.JPG'']. archived_post_id a = line_post_id ''# 1_2.jpg'')
     \<and> media_list (fst (scan_posts_step (downloaded_post_ids [''1_2.JPG'']) 3 None init_state ''# 1_2.jpg''))
       = media_list init_state"
    by blast
  with c n d show ?thesis by blast
qed

text \<open>
  Claim C3 as stated fails: with \<open>1_1.JPG\<close> archived, the candidate \<open>1_2.JPG\<close> is not in
  the archive and yet is classified as a duplicate and not emitted.
\<close>

theorem full_id_membership_counterexample:
  "is_candidate ''# 1_2.jpg''
   \<and> normalize_line ''# 1_2.jpg'' = ''1_2.JPG''
   \<and> ''1_2.JPG'' \<notin> set [''1_1.JPG'']
   \<and> classified_duplicate [''1_1.JPG''] ''# 1_2.jpg''
   \<and> media_list (scan_posts [''1_1.JPG''] 3 None [''# 1_2.jpg'']) = []
   \<and> duplicate_count (scan_posts [''1_1.JPG''] 3 None [''# 1_2.jpg'']) = 1"
  by code_simp

section \<open>The suffix test\<close>

lemma startswith_iff: "startswith s p \<longleftrightarrow> (\<exists>suf. s = p @ suf)"
  by (induction s p rule: startswith.induct) auto

lemma contains_iff: "contains sub s \<longleftrightarrow> (\<exists>pre suf. s = pre @ sub @ suf)"
proof (induction s)
  case Nil
  show ?case by auto
next
  case (Cons c cs)
  show ?case
  proof
    assume "contains sub (c # cs)"
    then consider "startswith (c # cs) sub" | "contains sub cs" by auto
    then show "\<exists>pre suf. c # cs = pre @ sub @ suf"
    proof cases
      case 1
      then obtain suf where "c # cs = sub @ suf" by (auto simp: startswith_iff)
      then have "c # cs = [] @ sub @ suf" by simp
      then show ?thesis by blast
    next
      case 2
      with Cons.IH obtain pre suf where "cs = pre @ sub @ suf" by blast
      then have "c # cs = (c # pre) @ sub @ suf" by simp
      then show ?thesis by blast
    qed
  next
    assume "\<exists>pre suf. c # cs = pre @ sub @ suf"
    then obtain pre suf where eq: "c # cs = pre @ sub @ suf" by blast
    show "contains sub (c # cs)"
    proof (cases pre)
      case Nil
      with eq have "startswith (c # cs) sub" by (auto simp: startswith_iff)
      then show ?thesis by simp
    next
      case (Cons p ps)
      with eq have "cs = ps @ sub @ suf" by simp
      with Cons.IH have "contains sub cs" by blast
      then show ?thesis by simp
    qed
  qed
qed

lemma endswith_iff: "endswith s suf \<longleftrightarrow> (\<exists>pre. s = pre @ suf)"
proof -
  have "endswith s suf \<longleftrightarrow> (\<exists>t. rev s = rev suf @ t)"
    by (simp add: endswith_def startswith_iff)
  also have "\<dots> \<longleftrightarrow> (\<exists>pre. s = pre @ suf)"
  proof
    assume "\<exists>t. rev s = rev suf @ t"
    then obtain t where "rev s = rev suf @ t" by blast
    then have "rev (rev s) = rev (rev suf @ t)" by simp
    then have "s = rev t @ suf" by simp
    then show "\<exists>pre. s = pre @ suf" by blast
  next
    assume "\<exists>pre. s = pre @ suf"
    then obtain pre where "s = pre @ suf" by blast
    then have "rev s = rev suf @ rev pre" by simp
    then show "\<exists>t. rev s = rev suf @ t" by blast
  qed
  finally show ?thesis .
qed

lemma endswith_contains: "endswith s suf \<Longrightarrow> contains suf s"
proof -
  assume "endswith s suf"
  then obtain pre where "s = pre @ suf @ []" by (auto simp: endswith_iff)
  then show ?thesis unfolding contains_iff by blast
qed

lemma is_media_line_iff:
  "is_media_line line \<longleftrightarrow>
     (\<exists>ext \<in> set media_suffixes. \<exists>pre suf. lower line = pre @ ext @ suf)"
proof -
  have "(\<exists>ext \<in> set media_suffixes. \<exists>pre suf. lower line = pre @ ext @ suf) \<Longrightarrow> line \<noteq> []"
    by (auto simp: media_suffixes_def lower_def)
  then show ?thesis
    by (auto simp: is_media_line_def list_ex_iff contains_iff)
qed

lemma scan_stories_step_not_candidate:
  "\<not> is_candidate raw \<Longrightarrow> scan_stories_step ids st raw = st"
  by (simp add: scan_stories_step_def is_candidate_def)

text \<open>
  Claim C4, as the code has it. A line of the listing is a candidate if and only if, after
  normalisation and compared without regard to case, it contains one of \<open>.jpg\<close>, \<open>.mp4\<close>,
  \<open>.webp\<close> anywhere (a line that ends with one of them is a candidate in particular);
  a line that fails the test changes nothing in either scan.
\<close>

theorem candidate_iff_contains_suffix:
  "(is_candidate raw \<longleftrightarrow>
      (\<exists>ext \<in> set media_suffixes. \<exists>pre suf. lower (normalize_line raw) = pre @ ext @ suf))
   \<and> ((\<exists>ext \<in> set media_suffixes. endswith (lower (normalize_line raw)) ext) \<longrightarrow> is_candidate raw)
   \<and> (\<not> is_candidate raw \<longrightarrow>
        scan_posts_step dl md mr st raw = (st, False) \<and> scan_stories_step ids sst raw = sst)"
proof -
  have a: "is_candidate raw \<longleftrightarrow>
      (\<exists>ext \<in> set media_suffixes. \<exists>pre suf. lower (normalize_line raw) = pre @ ext @ suf)"
    by (simp add: is_candidate_def is_media_line_iff)
  have b: "(\<exists>ext \<in> set media_suffixes. endswith (lower (normalize_line raw)) ext) \<longrightarrow> is_candidate raw"
  proof
    assume "\<exists>ext \<in> set media_suffixes. endswith (lower (normalize_line raw)) ext"
    then obtain ext where e: "ext \<in> set media_suffixes" "endswith (lower (normalize_line raw)) ext"
      by blast
    then obtain pre where "lower (normalize_line raw) = pre @ ext @ []"
      by (auto simp: endswith_iff)
    with e(1) a show "is_candidate raw" by blast
  qed
  have c: "\<not> is_candidate raw \<longrightarrow>
        scan_posts_step dl md mr st raw = (st, False) \<and> scan_stories_step ids sst raw = sst"
    by (simp add: step_not_candidate scan_stories_step_not_candidate)
  show ?thesis by (intro conjI) (rule a b c)+
qed

theorem candidate_iff_contains_suffix_witness:
  "(\<exists>ext \<in> set media_suffixes. endswith (lower (normalize_line '' # 123_1.JPG '')) ext)
   \<and> is_candidate '' # 123_1.JPG ''
   \<and> \<not> is_candidate ''[instagram] profile''
   \<and> scan_posts_step {} 3 None init_state ''[instagram] profile'' = (init_state, False)
   \<and> scan_stories_step [] init_stories_state ''[instagram] profile'' = init_stories_state"
proof -
  have e: "\<exists>ext \<in> set media_suffixes. endswith (lower (normalize_line '' # 123_1.JPG '')) ext"
    by code_simp
  have n: "\<not> is_candidate ''[instagram] profile''"
    by code_simp
  from candidate_iff_contains_suffix [of "'' # 123_1.JPG ''"] e
  have c: "is_candidate '' # 123_1.JPG ''" by blast
  from candidate_iff_contains_suffix [of "''[instagram] profile''" "{}" 3 None init_state "[]" init_stories_state] n
  have "scan_posts_step {} 3 None init_state ''[instagram] profile'' = (init_state, False)
      \<and> scan_stories_step [] init_stories_state ''[instagram] profile'' = init_stories_state"
    by blast
  with e n c show ?thesis by blast
qed

text \<open>
  Claim C4 as stated fails: the line \<open>123_1.jpg.part\<close> ends with none of the three
  suffixes and is a candidate, emitted by the scan of posts.
\<close>

theorem suffix_test_counterexample:
  "is_candidate ''# 123_1.jpg.part''
   \<and> \<not> endswith (lower (normalize_line ''# 123_1.jpg.part'')) ''.jpg''
   \<and> \<not> endswith (lower (normalize_line ''# 123_1.jpg.part'')) ''.mp4''
   \<and> \<not> endswith (lower (normalize_line ''# 123_1.jpg.part'')) ''.webp''
   \<and> map filename (media_list (scan_posts [] 3 None [''# 123_1.jpg.part''])) = [''123_1.JPG.PART'']"
  by code_simp

section \<open>The merge into the archive\<close>

lemma fold_keys_append:
  "fold (\<lambda>x acc. if x \<in> set acc then acc else acc @ [x]) xs acc =
     acc @ dict_fromkeys (filter (\<lambda>x. x \<notin> set acc) xs)"
proof (induction "length xs" arbitrary: xs acc rule: less_induct)
  case less
  show ?case
  proof (cases xs)
    case Nil
    then show ?thesis by (simp add: dict_fromkeys_def)
  next
    case (Cons x rest)
    have rest: "length rest < length xs"
      using Cons by simp
    show ?thesis
    proof (cases "x \<in> set acc")
      case True
      with Cons less [OF rest, of acc] show ?thesis by simp
    next
      case False
      have shorter: "length (filter (\<lambda>y. y \<notin> set acc) rest) < length xs"
        using Cons by (simp add: le_imp_less_Suc)
      have "fold (\<lambda>x acc. if x \<in> set acc then acc else acc @ [x]) xs acc =
          (acc @ [x]) @ dict_fromkeys (filter (\<lambda>y. y \<notin> set (acc @ [x])) rest)"
        using False Cons less [OF rest, of "acc @ [x]"] by simp
      moreover have "dict_fromkeys (filter (\<lambda>y. y \<notin> set acc) xs) =
          [x] @ dict_fromkeys (filter (\<lambda>y. y \<notin> set [x]) (filter (\<lambda>y. y \<notin> set acc) rest))"
        using False Cons less [OF shorter, of "[x]"] by (simp add: dict_fromkeys_def)
      moreover have "filter (\<lambda>y. y \<notin> set [x]) (filter (\<lambda>y. y \<notin> set acc) rest) =
          filter (\<lambda>y. y \<notin> set (acc @ [x])) rest"
        by (simp add: conj_commute)
      ultimately show ?thesis by simp
    qed
  qed
qed

lemma set_dict_fromkeys: "set (dict_fromkeys xs) = set xs"
proof (induction "length xs" arbitrary: xs rule: less_induct)
  case less
  show ?case
  proof (cases xs)
    case Nil
    then show ?thesis by (simp add: dict_fromkeys_def)
  next
    case (Cons x rest)
    have len: "length (filter (\<lambda>y. y \<notin> set [x]) rest) < length xs"
      using Cons by (simp add: le_imp_less_Suc)
    have "dict_fromkeys xs = [x] @ dict_fromkeys (filter (\<lambda>y. y \<notin> set [x]) rest)"
      using Cons fold_keys_append [of rest "[x]"] by (simp add: dict_fromkeys_def)
    with less [OF len] Cons show ?thesis by auto
  qed
qed

lemma distinct_dict_fromkeys: "distinct (dict_fromkeys xs)"
proof (induction "length xs" arbitrary: xs rule: less_induct)
  case less
  show ?case
  proof (cases xs)
    case Nil
    then show ?thesis by (simp add: dict_fromkeys_def)
  next
    case (Cons x rest)
    have len: "length (filter (\<lambda>y. y \<notin> set [x]) rest) < length xs"
      using Cons by (simp add: le_imp_less_Suc)
    have "dict_fromkeys xs = [x] @ dict_fromkeys (filter (\<lambda>y. y \<notin> set [x]) rest)"
      using Cons fold_keys_append [of rest "[x]"] by (simp add: dict_fromkeys_def)
    with less [OF len] show ?thesis by (simp add: set_dict_fromkeys)
  qed
qed

lemma dict_fromkeys_distinct: "distinct xs \<Longrightarrow> dict_fromkeys xs = xs"
proof (induction xs)
  case Nil
  show ?case by (simp add: dict_fromkeys_def)
next
  case (Cons x xs)
  have "dict_fromkeys (x # xs) = [x] @ dict_fromkeys (filter (\<lambda>y. y \<notin> set [x]) xs)"
    using fold_keys_append [of xs "[x]"] by (simp add: dict_fromkeys_def)
  moreover have "filter (\<lambda>y. y \<notin> set [x]) xs = xs"
    using Cons.prems by (auto simp: filter_id_conv)
  ultimately show ?case using Cons by simp
qed

lemma dict_fromkeys_append:
  "dict_fromkeys (xs @ ys) = dict_fromkeys xs @ dict_fromkeys (filter (\<lambda>y. y \<notin> set xs) ys)"
proof -
  have "dict_fromkeys (xs @ ys) =
      fold (\<lambda>x acc. if x \<in> set acc then acc else acc @ [x]) ys (dict_fromkeys xs)"
    by (simp add: dict_fromkeys_def)
  also have "\<dots> = dict_fromkeys xs @ dict_fromkeys (filter (\<lambda>y. y \<notin> set (dict_fromkeys xs)) ys)"
    by (rule fold_keys_append)
  finally show ?thesis by (simp add: set_dict_fromkeys)
qed

lemma dict_fromkeys_merge_twice:
  "dict_fromkeys (dict_fromkeys (old @ new) @ new) = dict_fromkeys (old @ new)"
proof -
  let ?d = "dict_fromkeys (old @ new)"
  have none: "filter (\<lambda>y. y \<notin> set ?d) new = []"
    by (simp add: set_dict_fromkeys)
  have empty: "dict_fromkeys ([] :: 'a list) = []"
    by (simp add: dict_fromkeys_def)
  have same: "dict_fromkeys ?d = ?d"
    by (rule dict_fromkeys_distinct) (rule distinct_dict_fromkeys)
  have "dict_fromkeys (?d @ new) = dict_fromkeys ?d @ dict_fromkeys (filter (\<lambda>y. y \<notin> set ?d) new)"
    by (rule dict_fromkeys_append)
  with none empty same show ?thesis by simp
qed

lemma downloaded_posts_update:
  "downloaded_posts (update_archive a np ns ar) a =
     dict_fromkeys (downloaded_posts ar a @ map filename np)"
  by (simp add: downloaded_posts_def update_archive_def Let_def split: option.splits)

lemma downloaded_stories_update:
  "downloaded_stories (update_archive a np ns ar) a =
     dict_fromkeys (downloaded_stories ar a @ map story_filename ns)"
  by (simp add: downloaded_stories_def update_archive_def Let_def split: option.splits)

lemma update_archive_twice:
  "update_archive a np ns (update_archive a np ns ar) = update_archive a np ns ar"
  by (simp add: update_archive_def Let_def dict_fromkeys_merge_twice split: option.splits)

text \<open>
  Claim C7. Merging the same new posts and stories a second time leaves the archive document
  as the first merge made it; the lists of the account have no repetitions afterwards; their
  members are the old ids and the new ones; and the order of insertion is kept: the old ids
  first, then the new ids that were not yet there, each once, in the order they came.
\<close>

theorem update_archive_idempotent:
  "update_archive account new_posts new_stories (update_archive account new_posts new_stories archive)
     = update_archive account new_posts new_stories archive
   \<and> distinct (downloaded_posts (update_archive account new_posts new_stories archive) account)
   \<and> distinct (downloaded_stories (update_archive account new_posts new_stories archive) account)
   \<and> set (downloaded_posts (update_archive account new_posts new_stories archive) account)
       = set (downloaded_posts archive account) \<union> set (map filename new_posts)
   \<and> set (downloaded_stories (update_archive account new_posts new_stories archive) account)
       = set (downloaded_stories archive account) \<union> set (map story_filename new_stories)
   \<and> downloaded_posts (update_archive account new_posts new_stories archive) account
       = dict_fromkeys (downloaded_posts archive account) @
         dict_fromkeys (filter (\<lambda>i. i \<notin> set (downloaded_posts archive account)) (map filename new_posts))
   \<and> downloaded_stories (update_archive account new_posts new_stories archive) account
       = dict_fromkeys (downloaded_stories archive account) @
         dict_fromkeys (filter (\<lambda>i. i \<notin> set (downloaded_stories archive account)) (map story_filename new_stories))"
proof (intro conjI)
  show "update_archive account new_posts new_stories (update_archive account new_posts new_stories archive)
     = update_archive account new_posts new_stories archive"
    by (rule update_archive_twice)
  show "distinct (downloaded_posts (update_archive account new_posts new_stories archive) account)"
    by (simp add: downloaded_posts_update distinct_dict_fromkeys)
  show "distinct (downloaded_stories (update_archive account new_posts new_stories archive) account)"
    by (simp add: downloaded_stories_update distinct_dict_fromkeys)
  show "set (downloaded_posts (update_archive account new_posts new_stories archive) account)
       = set (downloaded_posts archive account) \<union> set (map filename new_posts)"
    by (simp add: downloaded_posts_update set_dict_fromkeys)
  show "set (downloaded_stories (update_archive account new_posts new_stories archive) account)
       = set (downloaded_stories archive account) \<union> set (map story_filename new_stories)"
    by (simp add: downloaded_stories_update set_dict_fromkeys)
  show "downloaded_posts (update_archive account new_posts new_stories archive) account
       = dict_fromkeys (downloaded_posts archive account) @
         dict_fromkeys (filter (\<lambda>i. i \<notin> set (downloaded_posts archive account)) (map filename new_posts))"
    by (simp only: downloaded_posts_update dict_fromkeys_append)
  show "downloaded_stories (update_archive account new_posts new_stories archive) account
       = dict_fromkeys (downloaded_stories archive account) @
         dict_fromkeys (filter (\<lambda>i. i \<notin> set (downloaded_stories archive account)) (map story_filename new_stories))"
    by (simp only: downloaded_stories_update dict_fromkeys_append)
qed

section \<open>The casing of recorded identifiers\<close>

lemma upper_char_idem: "upper_char (upper_char c) = upper_char c"
  by (simp add: upper_char_def)

lemma upper_idem: "upper (upper s) = upper s"
  by (simp add: upper_def upper_char_idem)

lemma upper_drop: "upper (drop n s) = drop n (upper s)"
  by (simp add: upper_def drop_map)

lemma upper_normalize_line: "upper (normalize_line raw) = normalize_line raw"
  by (simp add: normalize_line_def Let_def upper_drop upper_idem)

lemma loop_filenames:
  "\<forall>m \<in> set (media_list (scan_posts_loop dl md mr st lines)).
      m \<in> set (media_list st) \<or> filename m \<in> normalize_line ` set lines"
proof (induction lines arbitrary: st)
  case Nil
  show ?case by simp
next
  case (Cons raw rest)
  obtain st' brk where step: "scan_posts_step dl md mr st raw = (st', brk)"
    by (cases "scan_posts_step dl md mr st raw")
  have ml: "\<forall>m \<in> set (media_list st'). m \<in> set (media_list st) \<or> filename m = normalize_line raw"
    using step_media_list [of dl md mr st raw] step by (auto split: if_splits)
  show ?case
  proof (cases brk)
    case True
    with step ml show ?thesis by auto
  next
    case False
    with step ml Cons.IH [of st'] show ?thesis by auto
  qed
qed

lemma stories_step_list:
  "\<forall>m \<in> set (stories_list (scan_stories_step ids st raw)).
      m \<in> set (stories_list st) \<or> story_filename m = normalize_line raw"
  by (simp add: scan_stories_step_def Let_def)

lemma stories_fold_filenames:
  "\<forall>m \<in> set (stories_list (fold (\<lambda>raw st. scan_stories_step ids st raw) lines st)).
      m \<in> set (stories_list st) \<or> story_filename m \<in> normalize_line ` set lines"
proof (induction lines arbitrary: st)
  case Nil
  show ?case by simp
next
  case (Cons raw rest)
  from Cons.IH [of "scan_stories_step ids st raw"] stories_step_list [of ids st raw]
  show ?case by auto
qed

text \<open>
  Claim C5, as the code has it. The full id (\<open>filename\<close>) of every item emitted by either scan
  is the normalised form of one of the lines, which is in upper case: converting it to upper
  case again changes nothing. The merge stores exactly these \<open>filename\<close> values, beside
  the ids that the archive held already.
\<close>

theorem recorded_ids_are_upper_case:
  "(\<forall>m \<in> set (media_list (scan_posts ids md mr lines)).
       filename m \<in> normalize_line ` set lines \<and> upper (filename m) = filename m)
   \<and> (\<forall>m \<in> set (stories_list (scan_stories story_ids lines)).
       story_filename m \<in> normalize_line ` set lines \<and> upper (story_filename m) = story_filename m)
   \<and> set (downloaded_posts (update_archive account new_posts new_stories archive) account) =
       set (downloaded_posts archive account) \<union> filename ` set new_posts
   \<and> set (downloaded_stories (update_archive account new_posts new_stories archive) account) =
       set (downloaded_stories archive account) \<union> story_filename ` set new_stories"
proof -
  have p: "\<forall>m \<in> set (media_list (scan_posts ids md mr lines)).
       filename m \<in> normalize_line ` set lines \<and> upper (filename m) = filename m"
    using loop_filenames [of "downloaded_post_ids ids" md mr init_state lines]
    by (auto simp: scan_posts_def init_state_def upper_normalize_line)
  have s: "\<forall>m \<in> set (stories_list (scan_stories story_ids lines)).
       story_filename m \<in> normalize_line ` set lines \<and> upper (story_filename m) = story_filename m"
    using stories_fold_filenames [of story_ids lines init_stories_state]
    by (auto simp: scan_stories_def init_stories_state_def upper_normalize_line)
  have ap: "set (downloaded_posts (update_archive account new_posts new_stories archive) account) =
       set (downloaded_posts archive account) \<union> filename ` set new_posts"
    by (simp add: downloaded_posts_update set_dict_fromkeys)
  have as: "set (downloaded_stories (update_archive account new_posts new_stories archive) account) =
       set (downloaded_stories archive account) \<union> story_filename ` set new_stories"
    by (simp add: downloaded_stories_update set_dict_fromkeys)
  show ?thesis by (intro conjI) (rule p s ap as)+
qed

theorem recorded_ids_are_upper_case_witness:
  "map filename (media_list (scan_posts [] 3 None [''# 123_1.jpg''])) = [''123_1.JPG'']
   \<and> map story_filename (stories_list (scan_stories [] [''# 123_1.jpg''])) = [''123_1.JPG'']
   \<and> upper ''123_1.JPG'' = ''123_1.JPG''
   \<and> ''123_1.JPG'' \<in> normalize_line ` set [''# 123_1.jpg'']
   \<and> set (downloaded_posts (update_archive ''acct''
             (media_list (scan_posts [] 3 None [''# 123_1.jpg''])) [] Map.empty) ''acct'')
       = {''123_1.JPG''}"
proof -
  let ?new = "media_list (scan_posts [] 3 None [''# 123_1.jpg''])"
  let ?story = "stories_list (scan_stories [] [''# 123_1.jpg''])"
  have f: "map filename ?new = [''123_1.JPG'']"
    by code_simp
  then have m: "filename (hd ?new) = ''123_1.JPG''" and mem: "hd ?new \<in> set ?new"
    by (cases ?new; simp)+
  have g: "map story_filename ?story = [''123_1.JPG'']"
    by code_simp
  then have sm: "story_filename (hd ?story) = ''123_1.JPG''" and smem: "hd ?story \<in> set ?story"
    by (cases ?story; simp)+
  note t = recorded_ids_are_upper_case [of "[]" 3 None "[''# 123_1.jpg'']" "[]" "''acct''" ?new "[]" Map.empty]
  from t mem have first: "filename (hd ?new) \<in> normalize_line ` set [''# 123_1.jpg'']
      \<and> upper (filename (hd ?new)) = filename (hd ?new)"
    by blast
  have u: "''123_1.JPG'' \<in> normalize_line ` set [''# 123_1.jpg''] \<and> upper ''123_1.JPG'' = ''123_1.JPG''"
    using first unfolding m .
  from t smem have sfirst: "upper (story_filename (hd ?story)) = story_filename (hd ?story)"
    by blast
  from t have "set (downloaded_posts (update_archive ''acct'' ?new [] Map.empty) ''acct'') =
       set (downloaded_posts Map.empty ''acct'') \<union> filename ` set ?new"
    by blast
  also have "filename ` set ?new = set (map filename ?new)"
    by simp
  finally have a: "set (downloaded_posts (update_archive ''acct'' ?new [] Map.empty) ''acct'') = {''123_1.JPG''}"
    by (simp add: f downloaded_posts_def)
  from f g u a show ?thesis by blast
qed

text \<open>
  Claim C5 as stated fails: the line \<open>123_1.jpg\<close> is recorded and persisted as
  \<open>123_1.JPG\<close>, which is not the casing of the line.
\<close>

theorem original_casing_counterexample:
  "map filename (media_list (scan_posts [] 3 None [''# 123_1.jpg''])) = [''123_1.JPG'']
   \<and> ''123_1.JPG'' \<noteq> ''123_1.jpg''
   \<and> downloaded_posts (update_archive ''acct''
         (media_list (scan_posts [] 3 None [''# 123_1.jpg''])) [] Map.empty) ''acct'' = [''123_1.JPG'']
   \<and> map story_filename (stories_list (scan_stories [] [''# 123_1.jpg''])) = [''123_1.JPG'']"
  by code_simp

section \<open>Stories with a non-numeric identifier\<close>

text \<open>
  Claim C10, as the code has it. In the scan of stories a line whose identifier, after the
  suffix is removed and the underscores are deleted, fails \<open>isdigit\<close> (it is empty or has a
  character that is not a digit character) leaves the state as it is, whatever the archive
  holds: it is not counted in \<open>total_scanned\<close> and not emitted, and the scan gives the same
  result as on the listing without that line. A candidate whose identifier passes
  \<open>isdigit\<close> is counted, and emitted when it is not in the archive; the digit characters
  are 0 to 9 and the other characters that Python takes for digits, such as the
  superscript two.
\<close>

theorem stories_non_numeric_dropped:
  "(\<not> isdigit (remove_underscores (rsplit_dot_first (normalize_line raw))) \<longrightarrow>
      scan_stories_step ids st raw = st
      \<and> scan_stories ids (before @ raw # after) = scan_stories ids (before @ after))
   \<and> (is_candidate raw \<and> isdigit (remove_underscores (rsplit_dot_first (normalize_line raw))) \<longrightarrow>
      total_scanned (scan_stories_step ids st raw) = total_scanned st + 1
      \<and> (normalize_line raw \<notin> set ids \<longrightarrow>
           map story_filename (stories_list (scan_stories_step ids st raw)) =
             map story_filename (stories_list st) @ [normalize_line raw]))"
proof -
  have dropped: "scan_stories_step ids st raw = st"
    if "\<not> isdigit (remove_underscores (rsplit_dot_first (normalize_line raw)))" for st
    using that by (simp add: scan_stories_step_def Let_def)
  have a: "\<not> isdigit (remove_underscores (rsplit_dot_first (normalize_line raw))) \<longrightarrow>
      scan_stories_step ids st raw = st
      \<and> scan_stories ids (before @ raw # after) = scan_stories ids (before @ after)"
    using dropped by (simp add: scan_stories_def)
  have b: "is_candidate raw \<and> isdigit (remove_underscores (rsplit_dot_first (normalize_line raw))) \<longrightarrow>
      total_scanned (scan_stories_step ids st raw) = total_scanned st + 1
      \<and> (normalize_line raw \<notin> set ids \<longrightarrow>
           map story_filename (stories_list (scan_stories_step ids st raw)) =
             map story_filename (stories_list st) @ [normalize_line raw])"
    by (simp add: scan_stories_step_def is_candidate_def Let_def)
  show ?thesis by (intro conjI) (rule a b)+
qed

theorem stories_non_numeric_dropped_witness:
  "is_candidate ''# story_123.jpg''
   \<and> normalize_line ''# story_123.jpg'' \<notin> set []
   \<and> \<not> isdigit (remove_underscores (rsplit_dot_first (normalize_line ''# story_123.jpg'')))
   \<and> scan_stories [] ([''# 111_2.jpg''] @ ''# story_123.jpg'' # [''# 333.mp4''])
       = scan_stories [] ([''# 111_2.jpg''] @ [''# 333.mp4''])
   \<and> total_scanned (scan_stories [] ([''# 111_2.jpg''] @ ''# story_123.jpg'' # [''# 333.mp4''])) = 2
   \<and> is_candidate ''# 111_2.jpg''
   \<and> isdigit (remove_underscores (rsplit_dot_first (normalize_line ''# 111_2.jpg'')))
   \<and> total_scanned (scan_stories_step [] init_stories_state ''# 111_2.jpg'') = 1
   \<and> map story_filename (stories_list (scan_stories_step [] init_stories_state ''# 111_2.jpg''))
       = [''111_2.JPG'']"
proof -
  have c: "is_candidate ''# story_123.jpg''" by code_simp
  have h: "\<not> isdigit (remove_underscores (rsplit_dot_first (normalize_line ''# story_123.jpg'')))"
    by code_simp
  have eq: "scan_stories [] ([''# 111_2.jpg''] @ ''# story_123.jpg'' # [''# 333.mp4''])
       = scan_stories [] ([''# 111_2.jpg''] @ [''# 333.mp4''])"
    using stories_non_numeric_dropped
      [of "''# story_123.jpg''" "[]" init_stories_state "[''# 111_2.jpg'']" "[''# 333.mp4'']"] h
    by blast
  have t: "total_scanned (scan_stories [] ([''# 111_2.jpg''] @ [''# 333.mp4''])) = 2"
    by code_simp
  have c2: "is_candidate ''# 111_2.jpg''" by code_simp
  have d2: "isdigit (remove_underscores (rsplit_dot_first (normalize_line ''# 111_2.jpg'')))"
    by code_simp
  have n2: "normalize_line ''# 111_2.jpg'' \<notin> set []" by simp
  have nm: "normalize_line ''# 111_2.jpg'' = ''111_2.JPG''" by code_simp
  have z: "total_scanned init_stories_state = 0" "stories_list init_stories_state = []"
    by (simp_all add: init_stories_state_def)
  from stories_non_numeric_dropped [of "''# 111_2.jpg''" "[]" init_stories_state "[]" "[]"] c2 d2 n2
  have "total_scanned (scan_stories_step [] init_stories_state ''# 111_2.jpg'') =
          total_scanned init_stories_state + 1
      \<and> map story_filename (stories_list (scan_stories_step [] init_stories_state ''# 111_2.jpg'')) =
          map story_filename (stories_list init_stories_state) @ [normalize_line ''# 111_2.jpg'']"
    by blast
  then have counted: "total_scanned (scan_stories_step [] init_stories_state ''# 111_2.jpg'') = 1
      \<and> map story_filename (stories_list (scan_stories_step [] init_stories_state ''# 111_2.jpg''))
          = [''111_2.JPG'']"
    by (simp add: z nm)
  from c h eq t c2 d2 counted show ?thesis by simp
qed

text \<open>
  Claim C10 as stated fails when digits are 0 to 9: the identifier of the line that reads
  12, superscript two (0xb2), \<open>.jpg\<close> has a character that is none of them, and the line is
  counted and emitted.
\<close>

theorem superscript_digit_counterexample:
  "is_candidate (''# 12'' @ [CHR 0xB2] @ ''.jpg'')
   \<and> remove_underscores (rsplit_dot_first (normalize_line (''# 12'' @ [CHR 0xB2] @ ''.jpg'')))
       = ''12'' @ [CHR 0xB2]
   \<and> CHR 0xB2 \<notin> set ''0123456789''
   \<and> total_scanned (scan_stories [] [''# 12'' @ [CHR 0xB2] @ ''.jpg'']) = 1
   \<and> map story_filename (stories_list (scan_stories [] [''# 12'' @ [CHR 0xB2] @ ''.jpg'']))
       = [''12'' @ [CHR 0xB2] @ ''.JPG'']"
  by code_simp

section \<open>The resolved range\<close>

lemma py_min_Min: "xs \<noteq> [] \<Longrightarrow> py_min xs = Some (Min (set xs))"
  by (cases xs) (simp_all add: Min.set_eq_fold [symmetric])

lemma py_max_Max: "xs \<noteq> [] \<Longrightarrow> py_max xs = Some (Max (set xs))"
  by (cases xs) (simp_all add: Max.set_eq_fold [symmetric])

text \<open>
  Claim C6. Without new posts no range is produced and the guard of the download of posts
  is false; with new posts the range is the least and the greatest of their \<open>media_index\<close>
  values. New items at the positions 3, 5 and 7 give the range (3, 7).
\<close>

theorem posts_range_min_max:
  "posts_range [] = None
   \<and> \<not> posts_download_runs (posts_range [])
   \<and> (new_posts \<noteq> [] \<longrightarrow>
        posts_range new_posts =
          Some (Min (media_index ` set new_posts), Max (media_index ` set new_posts)))"
proof -
  have e: "posts_range [] = None"
    by (simp add: posts_range_def)
  have r: "\<not> posts_download_runs (posts_range [])"
    by (simp add: posts_range_def posts_download_runs_def)
  have n: "new_posts \<noteq> [] \<longrightarrow>
        posts_range new_posts =
          Some (Min (media_index ` set new_posts), Max (media_index ` set new_posts))"
    by (simp add: posts_range_def py_min_Min py_max_Max)
  show ?thesis by (intro conjI) (rule e r n)+
qed

theorem posts_range_min_max_witness:
  "map media_index (media_list (scan_posts [''9_1.JPG'', ''8_1.JPG''] 5 None
       [''# 9_1.jpg'', ''# 8_1.jpg'', ''# 1_1.jpg'', ''# 9_2.jpg'', ''# 2_1.jpg'', ''# 8_2.jpg'', ''# 3_1.mp4'']))
     = [3, 5, 7]
   \<and> media_list (scan_posts [''9_1.JPG'', ''8_1.JPG''] 5 None
       [''# 9_1.jpg'', ''# 8_1.jpg'', ''# 1_1.jpg'', ''# 9_2.jpg'', ''# 2_1.jpg'', ''# 8_2.jpg'', ''# 3_1.mp4'']) \<noteq> []
   \<and> posts_range (media_list (scan_posts [''9_1.JPG'', ''8_1.JPG''] 5 None
       [''# 9_1.jpg'', ''# 8_1.jpg'', ''# 1_1.jpg'', ''# 9_2.jpg'', ''# 2_1.jpg'', ''# 8_2.jpg'', ''# 3_1.mp4'']))
     = Some (3, 7)"
proof -
  let ?new = "media_list (scan_posts [''9_1.JPG'', ''8_1.JPG''] 5 None
       [''# 9_1.jpg'', ''# 8_1.jpg'', ''# 1_1.jpg'', ''# 9_2.jpg'', ''# 2_1.jpg'', ''# 8_2.jpg'', ''# 3_1.mp4''])"
  have idx: "map media_index ?new = [3, 5, 7]"
    by code_simp
  then have ne: "?new \<noteq> []"
    by auto
  have "media_index ` set ?new = set (map media_index ?new)"
    by simp
  with idx have img: "media_index ` set ?new = {3, 5, 7}"
    by simp
  from posts_range_min_max [of ?new] ne
  have "posts_range ?new = Some (Min (media_index ` set ?new), Max (media_index ` set ?new))"
    by blast
  with img have "posts_range ?new = Some (3, 7)"
    by simp
  with idx ne show ?thesis by blast
qed

end
